theory Spec2Isabelle
  imports Main
begin

section \<open>Python values\<close>

text \<open>
  A Python \<^verbatim>\<open>str\<close> is a sequence of Unicode code points; it is modelled as a list of
  natural numbers, one per code point.  A literal of the source is written
  \<open>py ''...''\<close>.
\<close>

type_synonym str = "nat list"

abbreviation py :: "string \<Rightarrow> str" where
  "py s \<equiv> map of_char s"

text \<open>
  The objects that \<^verbatim>\<open>json.loads\<close> and \<^verbatim>\<open>response.json()\<close> produce.  A float is
  kept as the numeral text it was read from (the conversion to a binary floating
  point number is not modelled); a dict is the list of its items in insertion order,
  with distinct keys.
\<close>

datatype pyobj =
    PyNone
  | PyBool bool
  | PyInt int
  | PyFloat str
  | PyStr str
  | PyList "pyobj list"
  | PyDict "(str \<times> pyobj) list"

text \<open>
  Raised exceptions.  \<open>is_Exception\<close> is \<^verbatim>\<open>isinstance(e, Exception)\<close>, the test an
  \<^verbatim>\<open>except Exception\<close> clause makes: \<^verbatim>\<open>KeyboardInterrupt\<close>, \<^verbatim>\<open>SystemExit\<close> and
  \<^verbatim>\<open>asyncio.CancelledError\<close> derive from \<^verbatim>\<open>BaseException\<close> only.
  \<open>is_JSONDecodeError\<close> is the test of \<^verbatim>\<open>except json.JSONDecodeError\<close>: a \<^verbatim>\<open>ValueError\<close>
  that is not a \<^verbatim>\<open>JSONDecodeError\<close> and a \<^verbatim>\<open>RecursionError\<close> do not pass it.
\<close>

datatype exn =
    JSONDecodeError string
  | ValueError string
  | RecursionError
  | AttributeError
  | TimeoutError
  | ClientError string
  | OtherException string
  | KeyboardInterrupt
  | SystemExit int
  | CancelledError

fun is_Exception :: "exn \<Rightarrow> bool" where
  "is_Exception KeyboardInterrupt = False"
| "is_Exception (SystemExit _) = False"
| "is_Exception CancelledError = False"
| "is_Exception _ = True"

fun is_JSONDecodeError :: "exn \<Rightarrow> bool" where
  "is_JSONDecodeError (JSONDecodeError _) = True"
| "is_JSONDecodeError _ = False"

section \<open>String methods\<close>

text \<open>\<^verbatim>\<open>str.isspace\<close> on one code point: the characters \<^verbatim>\<open>str.strip()\<close> removes.\<close>

definition isspace :: "nat \<Rightarrow> bool" where
  "isspace c \<longleftrightarrow>
     (9 \<le> c \<and> c \<le> 13) \<or> (28 \<le> c \<and> c \<le> 32) \<or> c = 133 \<or> c = 160 \<or> c = 5760 \<or>
     (8192 \<le> c \<and> c \<le> 8202) \<or> c = 8232 \<or> c = 8233 \<or> c = 8239 \<or> c = 8287 \<or>
     c = 12288"

definition lstrip :: "str \<Rightarrow> str" where
  "lstrip s = dropWhile isspace s"

definition rstrip :: "str \<Rightarrow> str" where
  "rstrip s = rev (dropWhile isspace (rev s))"

definition strip :: "str \<Rightarrow> str" where
  "strip s = rstrip (lstrip s)"

definition startswith :: "str \<Rightarrow> str \<Rightarrow> bool" where
  "startswith s p \<longleftrightarrow> take (length p) s = p"

text \<open>
  The slice \<^verbatim>\<open>s[a:-b]\<close> for \<open>a \<ge> 0\<close> and \<open>b > 0\<close>: the stop index is
  \<open>max (len s - b) 0\<close>, and the slice is empty when the start is not below it.
\<close>

definition slice_to_end :: "str \<Rightarrow> nat \<Rightarrow> nat \<Rightarrow> str" where
  "slice_to_end s a b = drop a (take (length s - b) s)"

text \<open>
  The slice \<^verbatim>\<open>s[:len(s) - n]\<close> for \<open>n \<le> len s\<close>, the text without its last \<open>n\<close>
  characters.  The lemmas use it to state that the decoder does not read past the end
  of a value.
\<close>

definition chop :: "nat \<Rightarrow> 'a list \<Rightarrow> 'a list" where
  "chop n xs = take (length xs - n) xs"

text \<open>\<^verbatim>\<open>s.split(sep)\<close> for a separator of one character; the result is never empty.\<close>

fun split :: "str \<Rightarrow> nat \<Rightarrow> str list" where
  "split [] sep = [[]]"
| "split (c # cs) sep =
     (if c = sep then [] # split cs sep
      else (case split cs sep of
              [] \<Rightarrow> [[c]]
            | x # xs \<Rightarrow> (c # x) # xs))"

section \<open>\<^verbatim>\<open>json.loads\<close>\<close>

text \<open>
  The decoder follows CPython's \<^verbatim>\<open>json.decoder\<close> and \<^verbatim>\<open>json.scanner\<close> (with the
  accelerated string scanner and ASCII digits).  Every function takes the text that
  is left to read and returns the text after what it has read, where the library
  passes an index into the document.  A failure is \<^verbatim>\<open>JSONDecodeError\<close> with the
  library's message; the position in the document is left out.

  Two limits of the interpreter stop the decoder with another exception.  The scanner
  calls itself for every array and object inside another one, and the interpreter
  raises \<^verbatim>\<open>RecursionError\<close> when the calls nest deeper than its recursion limit allows;
  \<^verbatim>\<open>int\<close> raises \<^verbatim>\<open>ValueError\<close> for a numeral of more than
  \<^verbatim>\<open>sys.get_int_max_str_digits()\<close> digits.  \<open>recursion_left\<close> is the number of arrays
  and objects, one inside the other, that the decoder can enter where it is called (the
  recursion limit, 1000 unless it was changed, less the calls already on the stack);
  \<open>int_max_str_digits\<close> is 4300 unless it was changed, and 0 where there is no limit.
\<close>

record interpreter =
  recursion_left :: nat
  int_max_str_digits :: nat

text \<open>\<^verbatim>\<open>WHITESPACE = re.compile(r'[ \t\n\r]*')\<close>\<close>

definition is_json_ws :: "nat \<Rightarrow> bool" where
  "is_json_ws c \<longleftrightarrow> c = 32 \<or> c = 9 \<or> c = 10 \<or> c = 13"

definition skip_ws :: "str \<Rightarrow> str" where
  "skip_ws s = dropWhile is_json_ws s"

text \<open>The four hexadecimal digits of a \<^verbatim>\<open>\uXXXX\<close> escape.\<close>

definition hexval :: "nat \<Rightarrow> nat option" where
  "hexval c =
     (if 48 \<le> c \<and> c \<le> 57 then Some (c - 48)
      else if 97 \<le> c \<and> c \<le> 102 then Some (c - 87)
      else if 65 \<le> c \<and> c \<le> 70 then Some (c - 55)
      else None)"

fun decode_hex :: "str \<Rightarrow> nat \<Rightarrow> nat option" where
  "decode_hex [] acc = Some acc"
| "decode_hex (d # ds) acc =
     (case hexval d of None \<Rightarrow> None | Some v \<Rightarrow> decode_hex ds (16 * acc + v))"

text \<open>The table \<^verbatim>\<open>BACKSLASH\<close> of the one-character escapes.\<close>

definition BACKSLASH :: "nat \<Rightarrow> nat option" where
  "BACKSLASH e =
     (if e = 34 \<or> e = 92 \<or> e = 47 then Some e
      else if e = 98 then Some 8
      else if e = 102 then Some 12
      else if e = 110 then Some 10
      else if e = 114 then Some 13
      else if e = 116 then Some 9
      else None)"

definition append_char :: "nat \<Rightarrow> exn + (str \<times> str) \<Rightarrow> exn + (str \<times> str)" where
  "append_char c r = (case r of Inl e \<Rightarrow> Inl e | Inr (v, rest) \<Rightarrow> Inr (c # v, rest))"

text \<open>
  \<^verbatim>\<open>scanstring(s, end, strict=True)\<close>, from after the opening quote: the decoded string
  and the text after the closing quote.  34 is the quote, 92 the backslash, 117 the
  letter u; a high surrogate followed by a low one is joined into one code point.
\<close>

fun scanstring :: "str \<Rightarrow> exn + (str \<times> str)" where
  "scanstring [] = Inl (JSONDecodeError ''Unterminated string starting at'')"
| "scanstring (c # cs) =
     (if c = 34 then Inr ([], cs)
      else if c = 92 then
        (case cs of
           [] \<Rightarrow> Inl (JSONDecodeError ''Unterminated string starting at'')
         | e # es \<Rightarrow>
             if e \<noteq> 117 then
               (case BACKSLASH e of
                  None \<Rightarrow> Inl (JSONDecodeError ''Invalid escape'')
                | Some d \<Rightarrow> append_char d (scanstring es))
             else if length es \<le> 4 then Inl (JSONDecodeError ''Invalid uXXXX escape'')
             else
               (case decode_hex (take 4 es) 0 of
                  None \<Rightarrow> Inl (JSONDecodeError ''Invalid uXXXX escape'')
                | Some u \<Rightarrow>
                    if 55296 \<le> u \<and> u \<le> 56319 \<and> 6 < length (drop 4 es)
                       \<and> take 2 (drop 4 es) = [92, 117] then
                      (case decode_hex (take 4 (drop 6 es)) 0 of
                         None \<Rightarrow> Inl (JSONDecodeError ''Invalid uXXXX escape'')
                       | Some u2 \<Rightarrow>
                           if 56320 \<le> u2 \<and> u2 \<le> 57343 then
                             append_char (65536 + (u - 55296) * 1024 + (u2 - 56320))
                               (scanstring (drop 10 es))
                           else append_char u (scanstring (drop 4 es)))
                    else append_char u (scanstring (drop 4 es))))
      else if c \<le> 31 then Inl (JSONDecodeError ''Invalid control character at'')
      else append_char c (scanstring cs))"

text \<open>
  \<^verbatim>\<open>NUMBER_RE = (-?(?:0|[1-9]\d*))(\.\d+)?([eE][-+]?\d+)?\<close>: the integer part, the
  fraction and the exponent are matched one after the other; the number is a float when
  a fraction or an exponent is present and an int otherwise.
\<close>

definition is_digit :: "nat \<Rightarrow> bool" where
  "is_digit c \<longleftrightarrow> 48 \<le> c \<and> c \<le> 57"

definition int_of_digits :: "str \<Rightarrow> int" where
  "int_of_digits ds = foldl (\<lambda>n d. 10 * n + (int d - 48)) 0 ds"

text \<open>
  \<^verbatim>\<open>int(s)\<close> for the text of an integer, with the limit \<open>m\<close> on its digits: the sign
  does not count, no numeral of at most 640 digits is refused, and \<open>m = 0\<close> is no limit.
\<close>

definition int_limit_error :: exn where
  "int_limit_error = ValueError ''Exceeds the limit for integer string conversion''"

definition parse_int :: "nat \<Rightarrow> str \<Rightarrow> exn + int" where
  "parse_int m s =
     (let (negative, digits) =
            (case s of [] \<Rightarrow> (False, s) | c # cs \<Rightarrow> if c = 45 then (True, cs) else (False, s))
      in if 0 < m \<and> m < length digits \<and> 640 < length digits
         then Inl int_limit_error
         else Inr (if negative then - int_of_digits digits else int_of_digits digits))"

fun match_digits :: "str \<Rightarrow> (str \<times> str) option" where
  "match_digits [] = None"
| "match_digits (d # ds) =
     (if d = 48 then Some ([d], ds)
      else if is_digit d then Some (d # takeWhile is_digit ds, dropWhile is_digit ds)
      else None)"

fun match_integer :: "str \<Rightarrow> (str \<times> str) option" where
  "match_integer [] = None"
| "match_integer (c # cs) =
     (if c = 45 then
        (case match_digits cs of None \<Rightarrow> None | Some (i, r) \<Rightarrow> Some (c # i, r))
      else match_digits (c # cs))"

definition match_frac :: "str \<Rightarrow> str \<times> str" where
  "match_frac s =
     (case s of
        d # f # fs \<Rightarrow>
          if d = 46 \<and> is_digit f then (d # f # takeWhile is_digit fs, dropWhile is_digit fs)
          else ([], s)
      | _ \<Rightarrow> ([], s))"

definition match_exp :: "str \<Rightarrow> str \<times> str" where
  "match_exp s =
     (case s of
        [] \<Rightarrow> ([], s)
      | e # r \<Rightarrow>
          if e = 101 \<or> e = 69 then
            (let sign = (if startswith r [45] \<or> startswith r [43] then take 1 r else []);
                 r1 = drop (length sign) r
             in if r1 \<noteq> [] \<and> is_digit (hd r1)
                then (e # sign @ takeWhile is_digit r1, dropWhile is_digit r1)
                else ([], s))
          else ([], s))"

text \<open>
  \<^verbatim>\<open>_match_number\<close>: \<open>None\<close> when no number starts the text, the exception of \<^verbatim>\<open>int\<close>
  when the integer has too many digits, and the number with the text after it
  otherwise.
\<close>

definition match_number :: "nat \<Rightarrow> str \<Rightarrow> (exn + pyobj \<times> str) option" where
  "match_number m s =
     (case match_integer s of
        None \<Rightarrow> None
      | Some (integer, r) \<Rightarrow>
          (let (frac, r1) = match_frac r; (exp, r2) = match_exp r1
           in if frac \<noteq> [] \<or> exp \<noteq> [] then Some (Inr (PyFloat (integer @ frac @ exp), r2))
              else (case parse_int m integer of
                      Inl e \<Rightarrow> Some (Inl e)
                    | Inr n \<Rightarrow> Some (Inr (PyInt n, r2)))))"

text \<open>\<^verbatim>\<open>dict(pairs)\<close>: a repeated key keeps its first position and takes the last value.\<close>

fun setitem :: "(str \<times> pyobj) list \<Rightarrow> str \<Rightarrow> pyobj \<Rightarrow> (str \<times> pyobj) list" where
  "setitem [] k v = [(k, v)]"
| "setitem ((k', v') # d) k v = (if k' = k then (k, v) # d else (k', v') # setitem d k v)"

definition dict :: "(str \<times> pyobj) list \<Rightarrow> (str \<times> pyobj) list" where
  "dict pairs = foldl (\<lambda>d (k, v). setitem d k v) [] pairs"

text \<open>
  \<^verbatim>\<open>scan_once\<close> reads one value; \<open>array_loop\<close> is the loop of \<^verbatim>\<open>JSONArray\<close> and
  \<open>object_loop\<close> the loop of \<^verbatim>\<open>JSONObject\<close>, entered after the opening quote of a key.
  123 and 125 are the braces, 91 and 93 the brackets, 44 the comma, 58 the colon.
  \<open>m\<close> is the limit on the digits of an integer and \<open>d\<close> the number of arrays and
  objects that can still be entered: the scanner enters one before it reads what is
  inside, also when nothing is.
\<close>

function (domintros) scan_once :: "nat \<Rightarrow> nat \<Rightarrow> str \<Rightarrow> exn + (pyobj \<times> str)"
  and array_loop :: "nat \<Rightarrow> nat \<Rightarrow> str \<Rightarrow> pyobj list \<Rightarrow> exn + (pyobj \<times> str)"
  and object_loop :: "nat \<Rightarrow> nat \<Rightarrow> str \<Rightarrow> (str \<times> pyobj) list \<Rightarrow> exn + (pyobj \<times> str)"
where
  "scan_once m d [] = Inl (JSONDecodeError ''Expecting value'')"
| "scan_once m d (c # cs) =
     (if c = 34 then
        (case scanstring cs of Inl e \<Rightarrow> Inl e | Inr (v, r) \<Rightarrow> Inr (PyStr v, r))
      else if c = 123 then
        (if d = 0 then Inl RecursionError
         else
           (case skip_ws cs of
              [] \<Rightarrow> Inl (JSONDecodeError ''Expecting property name enclosed in double quotes'')
            | e # r \<Rightarrow>
                if e = 125 then Inr (PyDict [], r)
                else if e = 34 then object_loop m (d - 1) r []
                else Inl (JSONDecodeError ''Expecting property name enclosed in double quotes'')))
      else if c = 91 then
        (if d = 0 then Inl RecursionError
         else
           (case skip_ws cs of
              [] \<Rightarrow> Inl (JSONDecodeError ''Expecting value'')
            | e # r \<Rightarrow> if e = 93 then Inr (PyList [], r) else array_loop m (d - 1) (e # r) []))
      else if c = 110 \<and> take 4 (c # cs) = py ''null'' then Inr (PyNone, drop 3 cs)
      else if c = 116 \<and> take 4 (c # cs) = py ''true'' then Inr (PyBool True, drop 3 cs)
      else if c = 102 \<and> take 5 (c # cs) = py ''false'' then Inr (PyBool False, drop 4 cs)
      else
        (case match_number m (c # cs) of
           Some x \<Rightarrow> x
         | None \<Rightarrow>
             if c = 78 \<and> take 3 (c # cs) = py ''NaN'' then Inr (PyFloat (py ''NaN''), drop 2 cs)
             else if c = 73 \<and> take 8 (c # cs) = py ''Infinity''
               then Inr (PyFloat (py ''Infinity''), drop 7 cs)
             else if c = 45 \<and> take 9 (c # cs) = py ''-Infinity''
               then Inr (PyFloat (py ''-Infinity''), drop 8 cs)
             else Inl (JSONDecodeError ''Expecting value'')))"
| "array_loop m d s vals =
     (case scan_once m d s of
        Inl e \<Rightarrow> Inl e
      | Inr (v, r) \<Rightarrow>
          (case skip_ws r of
             [] \<Rightarrow> Inl (JSONDecodeError ''Expecting , delimiter'')
           | e # r1 \<Rightarrow>
               if e = 93 then Inr (PyList (vals @ [v]), r1)
               else if e \<noteq> 44 then Inl (JSONDecodeError ''Expecting , delimiter'')
               else array_loop m d (skip_ws r1) (vals @ [v])))"
| "object_loop m d s pairs =
     (case scanstring s of
        Inl e \<Rightarrow> Inl e
      | Inr (key, r) \<Rightarrow>
          (case skip_ws r of
             [] \<Rightarrow> Inl (JSONDecodeError ''Expecting : delimiter'')
           | e # r1 \<Rightarrow>
               if e \<noteq> 58 then Inl (JSONDecodeError ''Expecting : delimiter'')
               else
                 (case scan_once m d (skip_ws r1) of
                    Inl e \<Rightarrow> Inl e
                  | Inr (v, r2) \<Rightarrow>
                      (case skip_ws r2 of
                         [] \<Rightarrow> Inl (JSONDecodeError ''Expecting , delimiter'')
                       | e2 # r3 \<Rightarrow>
                           if e2 = 125 then Inr (PyDict (dict (pairs @ [(key, v)])), r3)
                           else if e2 \<noteq> 44 then Inl (JSONDecodeError ''Expecting , delimiter'')
                           else
                             (case skip_ws r3 of
                                [] \<Rightarrow> Inl (JSONDecodeError
                                        ''Expecting property name enclosed in double quotes'')
                              | e3 # r4 \<Rightarrow>
                                  if e3 = 34 then object_loop m d r4 (pairs @ [(key, v)])
                                  else Inl (JSONDecodeError
                                        ''Expecting property name enclosed in double quotes''))))))"
  by pat_completeness auto

text \<open>Every scanner returns less text than it was given, so the recursion ends.\<close>

lemma append_char_Inr:
  "append_char c x = Inr (v, r) \<Longrightarrow> \<exists>v'. x = Inr (v', r)"
  by (auto simp: append_char_def split: sum.splits)

lemma scanstring_length: "scanstring s = Inr (v, r) \<Longrightarrow> length r < length s"
proof (induction s arbitrary: v rule: scanstring.induct)
  case 1
  then show ?case by simp
next
  case (2 c cs)
  show ?case
    using "2.prems" "2.IH"
    by (fastforce simp: split: if_splits list.splits option.splits dest!: append_char_Inr)
qed

lemma skip_ws_length: "length (skip_ws s) \<le> length s"
  by (simp add: skip_ws_def length_dropWhile_le)

lemma skip_ws_Cons_length: "skip_ws s = d # r \<Longrightarrow> length r < length s"
  using skip_ws_length [of s] by simp

lemma length_dropWhile_less_Suc [simp]: "length (dropWhile P xs) < Suc (length xs)"
  by (simp add: length_dropWhile_le less_Suc_eq_le)

lemma match_digits_length: "match_digits s = Some (i, r) \<Longrightarrow> length r < length s"
  by (cases s) (auto simp: length_dropWhile_le le_imp_less_Suc split: if_splits)

lemma match_integer_length: "match_integer s = Some (i, r) \<Longrightarrow> length r < length s"
  by (cases s) (auto split: if_splits option.splits dest: match_digits_length)

lemma match_frac_length: "match_frac s = (f, r) \<Longrightarrow> length r \<le> length s"
  by (auto simp: match_frac_def length_dropWhile_le le_SucI split: list.splits if_splits)

lemma match_exp_length: "match_exp s = (f, r) \<Longrightarrow> length r \<le> length s"
  by (auto simp: match_exp_def Let_def length_dropWhile_le le_SucI
      intro: order_trans [OF length_dropWhile_le]
      split: list.splits if_splits)

lemma match_number_length: "match_number m s = Some (Inr (v, r)) \<Longrightarrow> length r < length s"
  by (auto simp: match_number_def Let_def split: option.splits prod.splits if_splits sum.splits
      dest!: match_integer_length match_frac_length match_exp_length)

lemma scan_length_partial:
  "scan_once_array_loop_object_loop_dom (Inl (m, h, s)) \<Longrightarrow>
     scan_once m h s = Inr (v, r) \<Longrightarrow> length r < length s"
  "scan_once_array_loop_object_loop_dom (Inr (Inl (m1, h1, s1, vs))) \<Longrightarrow>
     array_loop m1 h1 s1 vs = Inr (v1, r1) \<Longrightarrow> length r1 < length s1"
  "scan_once_array_loop_object_loop_dom (Inr (Inr (m2, h2, s2, ps))) \<Longrightarrow>
     object_loop m2 h2 s2 ps = Inr (v2, r2) \<Longrightarrow> length r2 < length s2"
proof (induction m h s and m1 h1 s1 vs and m2 h2 s2 ps arbitrary: v r and v1 r1 and v2 r2
    rule: scan_once_array_loop_object_loop.pinduct)
  case (1 m h)
  then show ?case by (simp add: scan_once.psimps)
next
  case (2 m h c cs)
  have eq: "scan_once m h (c # cs) = Inr (v, r)" by fact
  note unf = scan_once.psimps(2) [OF "2.hyps"]
  consider (str) "c = 34" | (obj) "c \<noteq> 34" "c = 123" | (arr) "c \<noteq> 34" "c \<noteq> 123" "c = 91"
    | (other) "c \<noteq> 34" "c \<noteq> 123" "c \<noteq> 91" by blast
  then show ?case
  proof cases
    case str
    with eq unf show ?thesis
      by (auto split: sum.splits dest!: scanstring_length)
  next
    case obj
    with eq unf have h0: "h \<noteq> 0" by (auto split: if_splits)
    with obj eq unf obtain d r' where sk: "skip_ws cs = d # r'"
      by (auto split: list.splits)
    show ?thesis
    proof (cases "d = 125")
      case True
      with obj h0 sk eq unf show ?thesis
        by (auto dest!: skip_ws_Cons_length)
    next
      case False
      with obj h0 sk eq unf have d: "d = 34" and ol: "object_loop m (h - 1) r' [] = Inr (v, r)"
        by (auto split: if_splits)
      from "2.IH"(1) [OF obj h0 sk False d ol] skip_ws_Cons_length [OF sk]
      show ?thesis by simp
    qed
  next
    case arr
    with eq unf have h0: "h \<noteq> 0" by (auto split: if_splits)
    with arr eq unf obtain d r' where sk: "skip_ws cs = d # r'"
      by (auto split: list.splits)
    show ?thesis
    proof (cases "d = 93")
      case True
      with arr h0 sk eq unf show ?thesis
        by (auto dest!: skip_ws_Cons_length)
    next
      case False
      with arr h0 sk eq unf have al: "array_loop m (h - 1) (d # r') [] = Inr (v, r)"
        by (auto split: if_splits)
      from "2.IH"(2) [OF arr h0 sk False al] skip_ws_Cons_length [OF sk]
      show ?thesis by simp
    qed
  next
    case other
    with eq unf show ?thesis
      by (auto simp: less_Suc_eq_le split: if_splits option.splits dest!: match_number_length)
  qed
next
  case (3 m h s vals)
  note unf = array_loop.psimps [OF "3.hyps"]
  from "3.prems" unf obtain v' r' where so: "scan_once m h s = Inr (v', r')"
    by (auto split: sum.splits)
  from "3.IH"(1) [OF so] have l1: "length r' < length s" .
  from "3.prems" unf so obtain d r'' where sk: "skip_ws r' = d # r''"
    by (auto split: list.splits)
  have l2: "length r'' < length r'" by (rule skip_ws_Cons_length [OF sk])
  show ?case
  proof (cases "d = 93")
    case True
    with "3.prems" unf so sk l1 l2 show ?thesis by auto
  next
    case False
    with "3.prems" unf so sk have d: "\<not> d \<noteq> 44"
      and al: "array_loop m h (skip_ws r'') (vals @ [v']) = Inr (v1, r1)"
      by (auto split: if_splits)
    from "3.IH"(2) [OF so refl sk False d al] skip_ws_length [of r''] l1 l2
    show ?thesis by simp
  qed
next
  case (4 m h s pairs)
  note unf = object_loop.psimps [OF "4.hyps"]
  from "4.prems" unf obtain key r' where ss: "scanstring s = Inr (key, r')"
    by (auto split: sum.splits)
  have l1: "length r' < length s" by (rule scanstring_length [OF ss])
  from "4.prems" unf ss obtain d r'' where sk: "skip_ws r' = d # r''"
    by (auto split: list.splits)
  have l2: "length r'' < length r'" by (rule skip_ws_Cons_length [OF sk])
  from "4.prems" unf ss sk have d: "\<not> d \<noteq> 58"
    by (auto split: if_splits)
  from "4.prems" unf ss sk d obtain v' r3 where so: "scan_once m h (skip_ws r'') = Inr (v', r3)"
    by (auto split: sum.splits)
  from "4.IH"(1) [OF ss refl sk d so] skip_ws_length [of r'']
  have l3: "length r3 < length r''" by simp
  from "4.prems" unf ss sk d so obtain d2 r4 where sk2: "skip_ws r3 = d2 # r4"
    by (auto split: list.splits)
  have l4: "length r4 < length r3" by (rule skip_ws_Cons_length [OF sk2])
  show ?case
  proof (cases "d2 = 125")
    case True
    with "4.prems" unf ss sk d so sk2 l1 l2 l3 l4 show ?thesis by auto
  next
    case False
    with "4.prems" unf ss sk d so sk2 have d2: "\<not> d2 \<noteq> 44"
      by (auto split: if_splits)
    from "4.prems" unf ss sk d so sk2 False d2 obtain d3 r5 where sk3: "skip_ws r4 = d3 # r5"
      by (auto split: list.splits)
    have l5: "length r5 < length r4" by (rule skip_ws_Cons_length [OF sk3])
    from "4.prems" unf ss sk d so sk2 False d2 sk3 have d3: "d3 = 34"
      and ol: "object_loop m h r5 (pairs @ [(key, v')]) = Inr (v2, r2)"
      by (auto split: if_splits)
    from "4.IH"(2) [OF ss refl sk d so refl sk2 False d2 sk3 d3 ol] l1 l2 l3 l4 l5
    show ?thesis by simp
  qed
qed

termination scan_once
proof (relation "measure (\<lambda>x. case x of Inl (_, _, s) \<Rightarrow> 2 * length s
                                       | Inr (Inl (_, _, s, _)) \<Rightarrow> 2 * length s + 1
                                       | Inr (Inr (_, _, s, _)) \<Rightarrow> 2 * length s + 1)",
    goal_cases)
  case 1
  show ?case by simp
next
  case (2 m h c cs d r)
  then show ?case by (auto dest!: skip_ws_Cons_length)
next
  case (3 m h c cs d r)
  then show ?case using skip_ws_Cons_length [of cs d r] by auto
next
  case (4 m h s vals)
  show ?case by simp
next
  case (5 m h s vals b v r d r1)
  then show ?case
    using scan_length_partial(1) [of m h s v r] skip_ws_Cons_length [of r d r1] skip_ws_length [of r1]
    by auto
next
  case (6 m h s pairs b key r d r1)
  then show ?case
    using scanstring_length [of s key r] skip_ws_Cons_length [of r d r1] skip_ws_length [of r1]
    by auto
next
  case (7 m h s pairs b key r d r1 b2 v r2 d2 r3 d3 r4)
  then show ?case
    using scanstring_length [of s key r] skip_ws_Cons_length [of r d r1] skip_ws_length [of r1]
      scan_length_partial(1) [of m h "skip_ws r1" v r2]
      skip_ws_Cons_length [of r2 d2 r3] skip_ws_Cons_length [of r3 d3 r4]
    by auto
qed

text \<open>
  The equations of the two loops rewrite any call of them, also the one in their own
  right-hand side; they are used where a proof names them.
\<close>

declare array_loop.simps [simp del] object_loop.simps [simp del]

text \<open>\<^verbatim>\<open>json.loads(s)\<close> for a \<^verbatim>\<open>str\<close>: 65279 is the byte order mark.\<close>

definition json_loads :: "interpreter \<Rightarrow> str \<Rightarrow> exn + pyobj" where
  "json_loads ip s =
     (if startswith s [65279]
      then Inl (JSONDecodeError ''Unexpected UTF-8 BOM (decode using utf-8-sig)'')
      else
        (case scan_once (int_max_str_digits ip) (recursion_left ip) (skip_ws s) of
           Inl e \<Rightarrow> Inl e
         | Inr (obj, r) \<Rightarrow>
             if skip_ws r = [] then Inr obj else Inl (JSONDecodeError ''Extra data'')))"

section \<open>\<^verbatim>\<open>ollama_client.py\<close>\<close>

subsection \<open>The client and its environment\<close>

record OllamaClient =
  base_url :: str
  model :: str
  embed_model :: str

text \<open>\<^verbatim>\<open>OllamaClient.__init__\<close>\<close>

definition OllamaClient_init :: "str \<Rightarrow> str \<Rightarrow> OllamaClient" where
  "OllamaClient_init url name =
     \<lparr>base_url = url, model = name, embed_model = py ''nomic-embed-text''\<rparr>"

text \<open>
  What one \<^verbatim>\<open>session.post\<close> yields: opening the session or posting raises, or a
  response arrives with its status and with what \<^verbatim>\<open>await response.json()\<close> gives (the
  decoded body, or the exception it raises).
\<close>

datatype http_reply =
    PostRaises exn
  | Response int "exn + pyobj"

text \<open>The records \<^verbatim>\<open>logging.error\<close> writes, each with the values its message formats.\<close>

datatype log_record =
    Error_calling_Ollama exn
  | Ollama_API_error int
  | Error_generating_embeddings exn
  | Ollama_embedding_error int
  | Failed_to_parse_Ollama_response_as_JSON exn
  | Response_was str

text \<open>
  The world the client acts on: the model backend answers the \<open>i\<close>-th request of the
  run with \<open>backend i\<close>; \<open>posts\<close> are the requests made so far (URL and JSON payload),
  \<open>sleeps\<close> the delays waited for so far, \<open>log\<close> the records written so far;
  \<open>interp\<close> are the limits of the interpreter that runs the client.
\<close>

record world =
  backend :: "nat \<Rightarrow> http_reply"
  posts :: "(str \<times> pyobj) list"
  sleeps :: "nat list"
  log :: "log_record list"
  interp :: interpreter

text \<open>
  \<^verbatim>\<open>result.get(key, default)\<close>: only a dict has the method, on any other object the
  attribute lookup raises.
\<close>

definition get :: "pyobj \<Rightarrow> str \<Rightarrow> pyobj \<Rightarrow> exn + pyobj" where
  "get obj key dflt =
     (case obj of
        PyDict d \<Rightarrow> (case map_of d key of Some v \<Rightarrow> Inr v | None \<Rightarrow> Inr dflt)
      | _ \<Rightarrow> Inl AttributeError)"

text \<open>
  One request: the body of the two nested \<^verbatim>\<open>async with\<close> blocks, shared by
  \<^verbatim>\<open>generate_completion\<close> and \<^verbatim>\<open>generate_embeddings\<close>, which differ in the URL, the
  payload, the key read from the result, the value returned on failure and the record
  logged.
\<close>

definition post :: "str \<Rightarrow> pyobj \<Rightarrow> world \<Rightarrow> http_reply \<times> world" where
  "post url payload w = (backend w (length (posts w)), w\<lparr>posts := posts w @ [(url, payload)]\<rparr>)"

subsection \<open>\<^verbatim>\<open>generate_completion\<close> and \<^verbatim>\<open>generate_embeddings\<close>\<close>

definition generate_completion ::
    "OllamaClient \<Rightarrow> str \<Rightarrow> pyobj \<Rightarrow> world \<Rightarrow> (exn + pyobj) \<times> world" where
  "generate_completion self prompt system_prompt w =
     (let payload = PyDict
            [(py ''model'', PyStr (model self)),
             (py ''prompt'', PyStr prompt),
             (py ''system'', system_prompt),
             (py ''stream'', PyBool False),
             (py ''options'', PyDict
                [(py ''temperature'', PyFloat (py ''0.1'')),
                 (py ''top_p'', PyFloat (py ''0.9''))])];
          (reply, w1) = post (base_url self @ py ''/api/generate'') payload w;
          (body, w2) =
            (case reply of
               PostRaises e \<Rightarrow> (Inl e, w1)
             | Response status json \<Rightarrow>
                 if status = 200 then
                   (case json of
                      Inl e \<Rightarrow> (Inl e, w1)
                    | Inr result \<Rightarrow> (get result (py ''response'') (PyStr []), w1))
                 else (Inr (PyStr []), w1\<lparr>log := log w1 @ [Ollama_API_error status]\<rparr>))
      in case body of
           Inr v \<Rightarrow> (Inr v, w2)
         | Inl e \<Rightarrow>
             if is_Exception e
             then (Inr (PyStr []), w2\<lparr>log := log w2 @ [Error_calling_Ollama e]\<rparr>)
             else (Inl e, w2))"

definition generate_embeddings ::
    "OllamaClient \<Rightarrow> str \<Rightarrow> world \<Rightarrow> (exn + pyobj) \<times> world" where
  "generate_embeddings self text w =
     (let payload = PyDict
            [(py ''model'', PyStr (embed_model self)),
             (py ''prompt'', PyStr text)];
          (reply, w1) = post (base_url self @ py ''/api/embeddings'') payload w;
          (body, w2) =
            (case reply of
               PostRaises e \<Rightarrow> (Inl e, w1)
             | Response status json \<Rightarrow>
                 if status = 200 then
                   (case json of
                      Inl e \<Rightarrow> (Inl e, w1)
                    | Inr result \<Rightarrow> (get result (py ''embedding'') (PyList []), w1))
                 else (Inr (PyList []), w1\<lparr>log := log w1 @ [Ollama_embedding_error status]\<rparr>))
      in case body of
           Inr v \<Rightarrow> (Inr v, w2)
         | Inl e \<Rightarrow>
             if is_Exception e
             then (Inr (PyList []), w2\<lparr>log := log w2 @ [Error_generating_embeddings e]\<rparr>)
             else (Inl e, w2))"

subsection \<open>\<^verbatim>\<open>extract_entities_and_relationships\<close>\<close>

definition extraction_system_prompt :: str where
  \<open>extraction_system_prompt = py
       (''You are an expert at analyzing smart home device events. \<newline>'' @
        ''        Extract entities and their relationships from the given text.\<newline>'' @
        ''        Return ONLY valid JSON with this exact structure:\<newline>'' @
        ''        {\<newline>'' @
        ''            "entities": [\<newline>'' @
        ''                {"name": "entity_name", "type": "entity_type", "properties": {"key": "value"}}\<newline>'' @
        ''            ],\<newline>'' @
        ''            "relationships": [\<newline>'' @
        ''                {"source": "entity1", "target": "entity2", "type": "relationship_type", "properties": {"key": "value"}}\<newline>'' @
        ''            ]\<newline>'' @
        ''        }'')\<close>

definition extraction_prompt :: "str \<Rightarrow> str" where
  \<open>extraction_prompt event_text =
     py (''Analyze this smart home event and extract entities and relationships:\<newline>'' @
        ''\<newline>'' @
        ''        Event: '')
     @ event_text @
     py (''\<newline>'' @
        ''        \<newline>'' @
        ''        Extract:\<newline>'' @
        ''        - Devices (sensors, lights, switches, etc.)\<newline>'' @
        ''        - Locations (rooms, areas)\<newline>'' @
        ''        - Values (temperatures, states, measurements)\<newline>'' @
        ''        - Time information\<newline>'' @
        ''        - Relationships between entities\<newline>'' @
        ''        \<newline>'' @
        ''        Return only the JSON structure.'')\<close>

text \<open>
  Lines 99 to 103: the response is stripped, and a response that starts with a fence
  loses its first 7 (or 3) and its last 3 characters.
\<close>

definition strip_fences :: "str \<Rightarrow> str" where
  "strip_fences response =
     (let response = strip response
      in if startswith response (py ''```json'') then slice_to_end response 7 3
         else if startswith response (py ''```'') then slice_to_end response 3 3
         else response)"

definition empty_result :: pyobj where
  "empty_result = PyDict [(py ''entities'', PyList []), (py ''relationships'', PyList [])]"

text \<open>
  Lines 97 to 109, the \<^verbatim>\<open>try\<close> block and its handler, on the object that
  \<^verbatim>\<open>generate_completion\<close> returned.  An object that is not a \<^verbatim>\<open>str\<close> has no \<^verbatim>\<open>strip\<close>:
  the \<^verbatim>\<open>AttributeError\<close> is not a \<^verbatim>\<open>JSONDecodeError\<close> and leaves the function.
\<close>

definition parse_response :: "pyobj \<Rightarrow> world \<Rightarrow> (exn + pyobj) \<times> world" where
  "parse_response response w =
     (case response of
        PyStr text \<Rightarrow>
          (let cleaned = strip_fences text
           in case json_loads (interp w) cleaned of
                Inr v \<Rightarrow> (Inr v, w)
              | Inl e \<Rightarrow>
                  if is_JSONDecodeError e
                  then (Inr empty_result,
                        w\<lparr>log := log w @
                          [Failed_to_parse_Ollama_response_as_JSON e, Response_was cleaned]\<rparr>)
                  else (Inl e, w))
      | _ \<Rightarrow> (Inl AttributeError, w))"

definition extract_entities_and_relationships ::
    "OllamaClient \<Rightarrow> str \<Rightarrow> world \<Rightarrow> (exn + pyobj) \<times> world" where
  "extract_entities_and_relationships self event_text w =
     (case generate_completion self (extraction_prompt event_text)
             (PyStr extraction_system_prompt) w of
        (Inl e, w1) \<Rightarrow> (Inl e, w1)
      | (Inr response, w1) \<Rightarrow> parse_response response w1)"

subsection \<open>\<^verbatim>\<open>analyze_patterns\<close>\<close>

definition patterns_system_prompt :: str where
  \<open>patterns_system_prompt = py
       (''You are a smart home analytics expert. \<newline>'' @
        ''        Analyze device usage patterns and provide actionable insights.\<newline>'' @
        ''        Focus on energy efficiency, automation opportunities, and unusual patterns.'')\<close>

definition patterns_prompt :: "str \<Rightarrow> str" where
  \<open>patterns_prompt events_summary =
     py (''Analyze these smart home patterns and provide insights:\<newline>'' @
        ''\<newline>'' @
        ''        '')
     @ events_summary @
     py (''\<newline>'' @
        ''        \<newline>'' @
        ''        Provide specific, actionable insights about:\<newline>'' @
        ''        1. Energy usage patterns and optimization opportunities\<newline>'' @
        ''        2. Automation suggestions based on repeated patterns\<newline>'' @
        ''        3. Unusual or concerning device behaviors\<newline>'' @
        ''        4. Seasonal or time-based patterns\<newline>'' @
        ''        \<newline>'' @
        ''        Be specific and practical.'')\<close>

text \<open>Line 133, the list comprehension; 10 is the line feed and 35 the character \<^verbatim>\<open>#\<close>.\<close>

definition insights_of :: "str \<Rightarrow> str list" where
  "insights_of response =
     map strip
       (filter (\<lambda>insight. strip insight \<noteq> [] \<and> \<not> startswith (strip insight) [35])
          (split response 10))"

definition analyze_patterns ::
    "OllamaClient \<Rightarrow> str \<Rightarrow> world \<Rightarrow> (exn + str list) \<times> world" where
  "analyze_patterns self events_summary w =
     (case generate_completion self (patterns_prompt events_summary)
             (PyStr patterns_system_prompt) w of
        (Inl e, w1) \<Rightarrow> (Inl e, w1)
      | (Inr response, w1) \<Rightarrow>
          (case response of
             PyStr text \<Rightarrow> (Inr (take 10 (insights_of text)), w1)
           | _ \<Rightarrow> (Inl AttributeError, w1)))"

section \<open>\<^verbatim>\<open>main.py\<close>\<close>

subsection \<open>The engine's state and its log\<close>

datatype level = DEBUG | INFO | WARNING | ERROR

datatype service = Neo4j | Kafka | Ollama

text \<open>
  The messages \<^verbatim>\<open>main.py\<close> logs, each with the values it formats (the wall-clock
  time of \<^verbatim>\<open>Starting processing cycle at ...\<close> is left out).
\<close>

datatype message =
    Missing_environment_variables "str list"
  | All_required_environment_variables_are_set
  | Initializing_services
  | Testing_connection service
  | Connection_successful service
  | All_services_initialized_successfully
  | Some_services_failed_to_initialize
  | Processing_sensor_data pyobj
  | Processed_data_from_device pyobj pyobj
  | Error_processing_sensor_data exn
  | AI_insights_generated_successfully
  | Error_generating_insights exn
  | Starting_processing_cycle
  | Processing_cycle_completed_successfully
  | Error_in_processing_cycle exn
  | Starting_Graphiti_Engine
  | Environment_check_failed_Exiting
  | Cycle nat
  | Shutdown_signal_received
  | Fatal_error exn
  | Graphiti_Engine_stopped

text \<open>
  What the engine can read and change: \<open>graph\<close> is the knowledge graph in the graph
  store (of any type: the engine holds no client for it, \<^verbatim>\<open>self.neo4j_client = None\<close>),
  \<open>environ\<close> is \<^verbatim>\<open>os.environ\<close>, \<open>logged\<close> are the records written so far at level
  \<^verbatim>\<open>INFO\<close> or above (the configured level), and \<open>waits\<close> the delays of
  \<^verbatim>\<open>asyncio.sleep\<close> waited for so far.
\<close>

record 'g engine =
  graph :: 'g
  environ :: "str \<Rightarrow> str option"
  logged :: "(level \<times> message) list"
  waits :: "nat list"

definition logger :: "level \<Rightarrow> message \<Rightarrow> 'g engine \<Rightarrow> 'g engine" where
  "logger lvl msg s = (if lvl = DEBUG then s else s\<lparr>logged := logged s @ [(lvl, msg)]\<rparr>)"

text \<open>
  What happens around one iteration of the main loop and is not decided by the code:
  the time \<^verbatim>\<open>datetime.now().isoformat()\<close> gives; what the statements of each
  \<^verbatim>\<open>try\<close> block raise (\<open>None\<close> when they raise nothing: in
  \<^verbatim>\<open>process_sensor_data\<close> where the comments stand for the graph update, in
  \<^verbatim>\<open>generate_insights\<close> where they stand for the call of the model, in
  \<^verbatim>\<open>run_processing_cycle\<close> between its two calls); and what is raised in \<^verbatim>\<open>run\<close>
  at \<^verbatim>\<open>await asyncio.sleep(60)\<close>, where the task is suspended (\<open>None\<close> when the sleep
  completes; a task that is cancelled there, as it is when the process is told to shut
  down, receives \<^verbatim>\<open>asyncio.CancelledError\<close>).
\<close>

record cycle_env =
  now :: str
  sensor_fault :: "exn option"
  insight_fault :: "exn option"
  cycle_fault :: "exn option"
  sleep_fault :: "exn option"

subsection \<open>\<^verbatim>\<open>check_environment\<close> and \<^verbatim>\<open>initialize_services\<close>\<close>

definition required_vars :: "str list" where
  "required_vars =
     [py ''NEO4J_URI'', py ''NEO4J_USERNAME'', py ''NEO4J_PASSWORD'',
      py ''KAFKA_BOOTSTRAP_SERVERS'', py ''OLLAMA_BASE_URL'']"

text \<open>\<^verbatim>\<open>not os.getenv(var)\<close>: the variable is unset or empty.\<close>

definition check_environment :: "'g engine \<Rightarrow> bool \<times> 'g engine" where
  "check_environment s =
     (let missing_vars =
            filter (\<lambda>var. case environ s var of None \<Rightarrow> True | Some v \<Rightarrow> v = []) required_vars
      in if missing_vars \<noteq> []
         then (False, logger ERROR (Missing_environment_variables missing_vars) s)
         else (True, logger INFO All_required_environment_variables_are_set s))"

text \<open>
  \<^verbatim>\<open>test_neo4j_connection\<close>, \<^verbatim>\<open>test_kafka_connection\<close> and \<^verbatim>\<open>test_ollama_connection\<close>
  are one function up to the name of the service: two log records and \<^verbatim>\<open>True\<close>.
\<close>

definition test_connection :: "service \<Rightarrow> 'g engine \<Rightarrow> bool \<times> 'g engine" where
  "test_connection svc s =
     (True, logger INFO (Connection_successful svc) (logger INFO (Testing_connection svc) s))"

definition initialize_services :: "'g engine \<Rightarrow> bool \<times> 'g engine" where
  "initialize_services s =
     (let s0 = logger INFO Initializing_services s;
          (r1, s1) = test_connection Neo4j s0;
          (r2, s2) = test_connection Kafka s1;
          (r3, s3) = test_connection Ollama s2
      in if r1 \<and> r2 \<and> r3
         then (True, logger INFO All_services_initialized_successfully s3)
         else (False, logger WARNING Some_services_failed_to_initialize s3))"

subsection \<open>\<^verbatim>\<open>process_sensor_data\<close>, \<^verbatim>\<open>generate_insights\<close>, \<^verbatim>\<open>run_processing_cycle\<close>\<close>

text \<open>
  An \<^verbatim>\<open>except Exception as e\<close> clause that logs and goes on: an instance of
  \<^verbatim>\<open>Exception\<close> is logged and the function returns \<open>r\<close>; anything else leaves the
  function.
\<close>

definition except_Exception ::
    "(exn \<Rightarrow> message) \<Rightarrow> 'a \<Rightarrow> exn \<Rightarrow> 'g engine \<Rightarrow> (exn + 'a) \<times> 'g engine" where
  "except_Exception msg r e s =
     (if is_Exception e then (Inr r, logger ERROR (msg e) s) else (Inl e, s))"

text \<open>
  \<^verbatim>\<open>process_sensor_data\<close> reads four fields of \<open>data\<close> and logs; where it would update
  the graph the source has comments only, so no statement of it writes the graph.
\<close>

definition process_sensor_data ::
    "cycle_env \<Rightarrow> pyobj \<Rightarrow> 'g engine \<Rightarrow> (exn + unit) \<times> 'g engine" where
  "process_sensor_data env data s =
     (let s0 = logger DEBUG (Processing_sensor_data data) s;
          body =
            (case get data (py ''device_id'') PyNone of
               Inl e \<Rightarrow> Inl e
             | Inr device_id \<Rightarrow>
                 (case get data (py ''sensor_type'') PyNone of
                    Inl e \<Rightarrow> Inl e
                  | Inr sensor_type \<Rightarrow>
                      (case get data (py ''value'') PyNone of
                         Inl e \<Rightarrow> Inl e
                       | Inr reading \<Rightarrow>
                           (case get data (py ''timestamp'') (PyStr (now env)) of
                              Inl e \<Rightarrow> Inl e
                            | Inr timestamp \<Rightarrow>
                                (case sensor_fault env of
                                   Some e \<Rightarrow> Inl e
                                 | None \<Rightarrow> Inr (sensor_type, device_id))))))
      in case body of
           Inr (sensor_type, device_id) \<Rightarrow>
             (Inr (), logger INFO (Processed_data_from_device sensor_type device_id) s0)
         | Inl e \<Rightarrow> except_Exception Error_processing_sensor_data () e s0)"

definition generate_insights ::
    "cycle_env \<Rightarrow> pyobj \<Rightarrow> 'g engine \<Rightarrow> (exn + pyobj) \<times> 'g engine" where
  "generate_insights env context s =
     (case insight_fault env of
        Some e \<Rightarrow> except_Exception Error_generating_insights (PyDict []) e s
      | None \<Rightarrow>
          (let insights = PyDict
                 [(py ''timestamp'', PyStr (now env)),
                  (py ''energy_efficiency'', PyStr (py ''Normal patterns detected'')),
                  (py ''security_status'', PyStr (py ''All systems secure'')),
                  (py ''recommendations'', PyList
                     [PyStr (py ''Optimize heating schedule''),
                      PyStr (py ''Update motion sensor sensitivity'')])]
           in (Inr insights, logger INFO AI_insights_generated_successfully s)))"

definition sample_data :: "cycle_env \<Rightarrow> pyobj" where
  "sample_data env = PyDict
     [(py ''device_id'', PyStr (py ''temp_sensor_01'')),
      (py ''sensor_type'', PyStr (py ''temperature'')),
      (py ''value'', PyFloat (py ''22.5'')),
      (py ''location'', PyStr (py ''living_room'')),
      (py ''timestamp'', PyStr (now env))]"

definition run_processing_cycle :: "cycle_env \<Rightarrow> 'g engine \<Rightarrow> (exn + unit) \<times> 'g engine" where
  "run_processing_cycle env s =
     (let s0 = logger INFO Starting_processing_cycle s;
          (body, s3) =
            (case process_sensor_data env (sample_data env) s0 of
               (Inl e, s1) \<Rightarrow> (Inl e, s1)
             | (Inr _, s1) \<Rightarrow>
                 (case cycle_fault env of
                    Some e \<Rightarrow> (Inl e, s1)
                  | None \<Rightarrow>
                      (case generate_insights env
                              (PyDict [(py ''recent_data'', PyList [sample_data env])]) s1 of
                         (Inl e, s2) \<Rightarrow> (Inl e, s2)
                       | (Inr insights, s2) \<Rightarrow>
                           (Inr (), logger INFO Processing_cycle_completed_successfully s2))))
      in case body of
           Inr _ \<Rightarrow> (Inr (), s3)
         | Inl e \<Rightarrow> except_Exception Error_in_processing_cycle () e s3)"

subsection \<open>\<^verbatim>\<open>run\<close>\<close>

text \<open>
  The loop \<^verbatim>\<open>while True\<close> of \<^verbatim>\<open>run\<close> never ends by itself.  It is run on the
  environments of its first iterations: \<open>Inr ()\<close> says that all of them have
  completed and the loop goes on, \<open>Inl e\<close> that \<open>e\<close> has left the loop.
\<close>

fun main_loop :: "cycle_env list \<Rightarrow> nat \<Rightarrow> 'g engine \<Rightarrow> (exn + unit) \<times> 'g engine" where
  "main_loop [] cycle_count s = (Inr (), s)"
| "main_loop (env # envs) cycle_count s =
     (case run_processing_cycle env (logger INFO (Cycle (cycle_count + 1)) s) of
        (Inl e, s1) \<Rightarrow> (Inl e, s1)
      | (Inr _, s1) \<Rightarrow>
          (case sleep_fault env of
             Some e \<Rightarrow> (Inl e, s1)
           | None \<Rightarrow> main_loop envs (cycle_count + 1) (s1\<lparr>waits := waits s1 @ [60]\<rparr>)))"

text \<open>
  How \<^verbatim>\<open>run\<close> stands after the given iterations: the loop is still going, \<^verbatim>\<open>run\<close> has
  returned, or an exception has left it (\<^verbatim>\<open>sys.exit(1)\<close> raises \<^verbatim>\<open>SystemExit(1)\<close>).
\<close>

datatype outcome = Running | Returned | Raised exn

definition run :: "cycle_env list \<Rightarrow> 'g engine \<Rightarrow> outcome \<times> 'g engine" where
  "run envs s =
     (let (ok, s1) = check_environment (logger INFO Starting_Graphiti_Engine s)
      in if \<not> ok then (Raised (SystemExit 1), logger ERROR Environment_check_failed_Exiting s1)
         else
           (let (_, s2) = initialize_services s1
            in case main_loop envs 0 s2 of
                 (Inr _, s3) \<Rightarrow> (Running, s3)
               | (Inl e, s3) \<Rightarrow>
                   if e = KeyboardInterrupt
                   then (Returned,
                         logger INFO Graphiti_Engine_stopped (logger INFO Shutdown_signal_received s3))
                   else if is_Exception e
                   then (Raised (SystemExit 1),
                         logger INFO Graphiti_Engine_stopped (logger ERROR (Fatal_error e) s3))
                   else (Raised e, logger INFO Graphiti_Engine_stopped s3)))"

section \<open>Entity Resolver\<close>

text \<open>
  Modelled from the spec: the Entity Resolver (section 4.3) is not in the repository's
  files.  The spec's words are: ``For each raw entity: normalize the name (trim,
  casefold, collapse whitespace) to produce a canonical key.  Look up existing Entity
  Nodes whose canonical key matches exactly; if none, compute an embedding for the name
  and compare via cosine similarity against a bounded candidate set (e.g., existing
  nodes of the same declared type) -- if similarity exceeds a fixed threshold, treat as
  the same entity; otherwise create a new node.''

  Trimming is \<open>strip\<close>; case folding maps the letters A to Z to a to z (the folding of
  other scripts is left out); collapsing replaces every run of whitespace by one space.
\<close>

text \<open>Modelled from the spec: ``casefold''.\<close>

definition casefold :: "str \<Rightarrow> str" where
  "casefold s = map (\<lambda>c. if 65 \<le> c \<and> c \<le> 90 then c + 32 else c) s"

text \<open>Modelled from the spec: ``collapse whitespace''.\<close>

fun collapse_whitespace :: "str \<Rightarrow> str" where
  "collapse_whitespace [] = []"
| "collapse_whitespace (c # cs) =
     (if isspace c then 32 # collapse_whitespace (dropWhile isspace cs)
      else c # collapse_whitespace cs)"

text \<open>Modelled from the spec: ``trim, casefold, collapse whitespace'', in this order.\<close>

definition canonical_key :: "str \<Rightarrow> str" where
  "canonical_key name = collapse_whitespace (casefold (strip name))"

text \<open>
  Modelled from the spec: of an Entity Node (section 3) the stable id, the canonical
  name and the type, which are what resolution reads; of a raw entity the name and the
  type.
\<close>

record entity_node =
  node_id :: nat
  canonical_name :: str
  node_type :: str

record raw_entity =
  raw_name :: str
  raw_type :: str

text \<open>Modelled from the spec: a new node takes an id no node has yet.\<close>

definition new_id :: "entity_node list \<Rightarrow> nat" where
  "new_id nodes = Suc (foldr max (map node_id nodes) 0)"

text \<open>
  Modelled from the spec: resolution of one raw entity against the nodes of the graph,
  giving the id it resolves to and the nodes afterwards.  The comparison of embeddings
  is floating point arithmetic on the model's vectors and is the parameter \<open>similar\<close>:
  \<open>similar key n\<close> says that the embedding computed for the normalised name is
  similar enough to that of the node \<open>n\<close>.
\<close>

definition resolve ::
    "(str \<Rightarrow> entity_node \<Rightarrow> bool) \<Rightarrow> entity_node list \<Rightarrow> raw_entity
      \<Rightarrow> nat \<times> entity_node list" where
  "resolve similar nodes e =
     (let key = canonical_key (raw_name e)
      in case find (\<lambda>n. canonical_name n = key) nodes of
           Some n \<Rightarrow> (node_id n, nodes)
         | None \<Rightarrow>
             (case find (\<lambda>n. node_type n = raw_type e \<and> similar key n) nodes of
                Some n \<Rightarrow> (node_id n, nodes)
              | None \<Rightarrow>
                  (new_id nodes,
                   nodes @ [\<lparr>node_id = new_id nodes, canonical_name = key,
                              node_type = raw_type e\<rparr>])))"

section \<open>Graph Merge Engine\<close>

text \<open>
  Modelled from the spec: the Graph Merge Engine (section 4.4) is not in the repository's
  files; where it would run, \<^verbatim>\<open>process_sensor_data\<close> has comments (lines 139 to 143 of
  \<^verbatim>\<open>main.py\<close>).  The spec's words are: ``Applies resolved entities and relationship edges
  as a single logical transaction scoped to one Extraction Result.  Entity upsert:
  create-or-update by resolved id.  Relationship upsert: if an active edge with the same
  (source, target, type) exists, update its properties (same merge policy as 4.3) and
  extend last_seen-equivalent tracking; if the edge does not exist, create it with
  valid_from = event timestamp; edges are never deleted, only closed (valid_to set) when
  a later event signals an explicit change in relationship type between the same pair --
  detection of this signal is a property of the extracted relationship type conflicting
  with the currently active one.''  The merge policy of section 4.3 is: ``scalar
  properties use last-write-wins; list-valued properties are unioned; first_seen is set
  once, last_seen is updated to the new event's timestamp on every match.''
\<close>

subsection \<open>Properties and their merge policy\<close>

text \<open>
  Modelled from the spec: the properties (key to value) of a node or an edge, with the
  values of JSON.
\<close>

type_synonym properties = "str \<Rightarrow> pyobj option"

text \<open>
  Modelled from the spec: ``list-valued properties are unioned''.  The elements of the
  new list that the old one does not have are put after it, each once.
\<close>

fun list_union :: "pyobj list \<Rightarrow> pyobj list \<Rightarrow> pyobj list" where
  "list_union xs [] = xs"
| "list_union xs (y # ys) = list_union (if y \<in> set xs then xs else xs @ [y]) ys"

text \<open>
  Modelled from the spec: the merge policy for one key, given the value the key has (if
  any) and the new value.  A new list is unioned with the list that is there (with no
  list when the key is not there or holds a scalar); any other new value wins.
\<close>

definition merge_value :: "pyobj option \<Rightarrow> pyobj \<Rightarrow> pyobj" where
  "merge_value old new =
     (case new of
        PyList ys \<Rightarrow> PyList (list_union (case old of Some (PyList xs) \<Rightarrow> xs | _ \<Rightarrow> []) ys)
      | _ \<Rightarrow> new)"

text \<open>Modelled from the spec: the merge policy for all keys; a key the new properties lack keeps its value.\<close>

definition merge_properties :: "properties \<Rightarrow> properties \<Rightarrow> properties" where
  "merge_properties old new =
     (\<lambda>key. case new key of None \<Rightarrow> old key | Some v \<Rightarrow> Some (merge_value (old key) v))"

subsection \<open>The graph state and what is applied to it\<close>

text \<open>
  Modelled from the spec: the Entity Node of section 3 with all its attributes.  The
  embedding vector is of any type \<open>'v\<close> (its numbers are floating point); times are
  natural numbers.
\<close>

record 'v graph_node = entity_node +
  properties :: properties
  embedding :: 'v
  first_seen :: nat
  last_seen :: nat

text \<open>
  Modelled from the spec: the Relationship Edge of section 3; \<open>valid_to = None\<close> is an
  active edge.  \<open>edge_last_seen\<close> is the ``last_seen-equivalent tracking'' of section 4.4,
  the time of the last event that gave this edge.
\<close>

record edge =
  source_id :: nat
  target_id :: nat
  edge_type :: str
  edge_properties :: properties
  valid_from :: nat
  valid_to :: "nat option"
  edge_last_seen :: nat

text \<open>Modelled from the spec: the graph state, of which the Merge Engine is the sole writer.\<close>

record 'v graph_state =
  graph_nodes :: "'v graph_node list"
  graph_edges :: "edge list"

text \<open>
  Modelled from the spec: an entity as the Resolver hands it to the Merge Engine, with
  the id it was resolved to, its canonical name and its type (what \<open>resolve\<close> finds or
  makes) and the properties of the raw entity.
\<close>

record resolved_entity = entity_node +
  entity_properties :: properties

text \<open>Modelled from the spec: a relationship between two resolved ids.\<close>

record resolved_relationship =
  rel_source :: nat
  rel_target :: nat
  rel_type :: str
  rel_properties :: properties

text \<open>
  Modelled from the spec: the Extraction Result of one event as the Merge Engine
  receives it, resolved, with the timestamp of the event that \<open>source_event_id\<close> names.
\<close>

record extraction_result =
  entities :: "resolved_entity list"
  relationships :: "resolved_relationship list"
  source_event_id :: nat
  event_timestamp :: nat

subsection \<open>Upserts\<close>

text \<open>
  Modelled from the spec: ``create-or-update''.  When something in \<open>xs\<close> is the same as
  what is applied, it is updated; when nothing is, \<open>new\<close> is added.
\<close>

definition upsert :: "('a \<Rightarrow> bool) \<Rightarrow> ('a \<Rightarrow> 'a) \<Rightarrow> 'a \<Rightarrow> 'a list \<Rightarrow> 'a list" where
  "upsert same update new xs =
     (if list_ex same xs then map (\<lambda>x. if same x then update x else x) xs else xs @ [new])"

text \<open>Modelled from the spec: ``by resolved id''.\<close>

definition same_node :: "resolved_entity \<Rightarrow> 'v graph_node \<Rightarrow> bool" where
  "same_node e n \<longleftrightarrow> node_id n = node_id e"

text \<open>
  Modelled from the spec: the update of a node that an entity matches: its properties
  are merged, ``last_seen is updated to the new event's timestamp''; the rest stays, so
  that ``first_seen is set once'' and the embedding is not recomputed.
\<close>

definition update_node :: "nat \<Rightarrow> resolved_entity \<Rightarrow> 'v graph_node \<Rightarrow> 'v graph_node" where
  "update_node ts e n =
     n\<lparr>properties := merge_properties (properties n) (entity_properties e), last_seen := ts\<rparr>"

text \<open>
  Modelled from the spec: the node created for an entity: its properties are those of
  the entity, merged into none; \<open>embedding_of\<close> is the embedding the model backend
  computes for a name.
\<close>

definition create_node :: "(str \<Rightarrow> 'v) \<Rightarrow> nat \<Rightarrow> resolved_entity \<Rightarrow> 'v graph_node" where
  "create_node embedding_of ts e =
     \<lparr>node_id = node_id e, canonical_name = canonical_name e, node_type = node_type e,
      properties = merge_properties (\<lambda>key. None) (entity_properties e),
      embedding = embedding_of (canonical_name e), first_seen = ts, last_seen = ts\<rparr>"

text \<open>Modelled from the spec: ``Entity upsert: create-or-update by resolved id.''\<close>

definition upsert_node ::
    "(str \<Rightarrow> 'v) \<Rightarrow> nat \<Rightarrow> resolved_entity \<Rightarrow> 'v graph_node list \<Rightarrow> 'v graph_node list" where
  "upsert_node embedding_of ts e ns =
     upsert (same_node e) (update_node ts e) (create_node embedding_of ts e) ns"

text \<open>Modelled from the spec: ``Active edge: a Relationship Edge with no closing timestamp.''\<close>

definition is_active :: "edge \<Rightarrow> bool" where
  "is_active y \<longleftrightarrow> valid_to y = None"

text \<open>Modelled from the spec: ``between the same pair''.\<close>

definition same_pair :: "resolved_relationship \<Rightarrow> edge \<Rightarrow> bool" where
  "same_pair x y \<longleftrightarrow> source_id y = rel_source x \<and> target_id y = rel_target x"

text \<open>Modelled from the spec: ``an active edge with the same (source, target, type)''.\<close>

definition same_edge :: "resolved_relationship \<Rightarrow> edge \<Rightarrow> bool" where
  "same_edge x y \<longleftrightarrow> is_active y \<and> same_pair x y \<and> edge_type y = rel_type x"

text \<open>
  Modelled from the spec: the closing of an edge.  \<open>conflicts new active\<close> says that the
  extracted relationship type \<open>new\<close> conflicts with the type \<open>active\<close> of an active edge
  (which types do, the spec does not say).  The event is a later one when the edge was
  last seen before it: an edge that the same event has given is not closed by it.
  A closed edge has \<open>valid_to\<close> set and is ``never mutated again'': nothing below changes
  an edge that is not active.
\<close>

definition close_edge :: "(str \<Rightarrow> str \<Rightarrow> bool) \<Rightarrow> nat \<Rightarrow> resolved_relationship \<Rightarrow> edge \<Rightarrow> edge" where
  "close_edge conflicts ts x y =
     (if is_active y \<and> same_pair x y \<and> conflicts (rel_type x) (edge_type y) \<and> edge_last_seen y < ts
      then y\<lparr>valid_to := Some ts\<rparr> else y)"

text \<open>Modelled from the spec: ``update its properties and extend last_seen-equivalent tracking''.\<close>

definition update_edge :: "nat \<Rightarrow> resolved_relationship \<Rightarrow> edge \<Rightarrow> edge" where
  "update_edge ts x y =
     y\<lparr>edge_properties := merge_properties (edge_properties y) (rel_properties x),
       edge_last_seen := ts\<rparr>"

text \<open>Modelled from the spec: ``create it with valid_from = event timestamp''.\<close>

definition create_edge :: "nat \<Rightarrow> resolved_relationship \<Rightarrow> edge" where
  "create_edge ts x =
     \<lparr>source_id = rel_source x, target_id = rel_target x, edge_type = rel_type x,
      edge_properties = merge_properties (\<lambda>key. None) (rel_properties x),
      valid_from = ts, valid_to = None, edge_last_seen = ts\<rparr>"

text \<open>
  Modelled from the spec: ``Relationship upsert'': the edges that the relationship
  closes are closed, then the active edge with the same (source, target, type) is
  updated or, when there is none, the edge is created.
\<close>

definition upsert_edge ::
    "(str \<Rightarrow> str \<Rightarrow> bool) \<Rightarrow> nat \<Rightarrow> resolved_relationship \<Rightarrow> edge list \<Rightarrow> edge list" where
  "upsert_edge conflicts ts x es =
     upsert (same_edge x) (update_edge ts x) (create_edge ts x) (map (close_edge conflicts ts x) es)"

subsection \<open>The merge\<close>

text \<open>
  Modelled from the spec: the application of one Extraction Result, its entities and
  its relationships in their order, at the timestamp of its event.  The result is the
  whole new state: the transaction ``either fully commits or is discarded''.
\<close>

definition merge ::
    "(str \<Rightarrow> str \<Rightarrow> bool) \<Rightarrow> (str \<Rightarrow> 'v) \<Rightarrow> 'v graph_state \<Rightarrow> extraction_result \<Rightarrow> 'v graph_state" where
  "merge conflicts embedding_of g r =
     \<lparr>graph_nodes = fold (upsert_node embedding_of (event_timestamp r)) (entities r) (graph_nodes g),
      graph_edges = fold (upsert_edge conflicts (event_timestamp r)) (relationships r) (graph_edges g)\<rparr>"

text \<open>
  Modelled from the spec: the invariants of section 3, ``id unique'' and ``no two active
  edges share (source_id, target_id, type) simultaneously''.
\<close>

definition rel_key :: "resolved_relationship \<Rightarrow> nat \<times> nat \<times> str" where
  "rel_key x = (rel_source x, rel_target x, rel_type x)"

definition edge_key :: "edge \<Rightarrow> nat \<times> nat \<times> str" where
  "edge_key y = (source_id y, target_id y, edge_type y)"

definition well_formed :: "'v graph_state \<Rightarrow> bool" where
  "well_formed g \<longleftrightarrow>
     distinct (map node_id (graph_nodes g)) \<and> distinct (map edge_key (filter is_active (graph_edges g)))"

subsection \<open>One entity on one node, one relationship on one edge\<close>

text \<open>
  Modelled from the spec: notions for the proofs about the Merge Engine above, none of
  them in the source.  \<open>node_step\<close> is what the upsert of an entity does to a node that
  is there, \<open>edge_step\<close> what the upsert of a relationship does to an edge that is there;
  the lemmas follow one node and one edge through an Extraction Result.  An edge is
  settled for an event when it is active and was last seen no earlier than the event:
  the event closes no such edge.
\<close>

definition node_step :: "nat \<Rightarrow> resolved_entity \<Rightarrow> 'v graph_node \<Rightarrow> 'v graph_node" where
  "node_step ts e n = (if same_node e n then update_node ts e n else n)"

definition edge_step :: "(str \<Rightarrow> str \<Rightarrow> bool) \<Rightarrow> nat \<Rightarrow> resolved_relationship \<Rightarrow> edge \<Rightarrow> edge" where
  "edge_step conflicts ts x y =
     (if same_edge x (close_edge conflicts ts x y)
      then update_edge ts x (close_edge conflicts ts x y)
      else close_edge conflicts ts x y)"

definition settled :: "nat \<Rightarrow> edge \<Rightarrow> bool" where
  "settled ts y \<longleftrightarrow> is_active y \<and> ts \<le> edge_last_seen y"

definition anchored_edge :: "nat \<Rightarrow> nat \<times> nat \<times> str \<Rightarrow> edge \<Rightarrow> bool" where
  "anchored_edge ts k y \<longleftrightarrow> settled ts y \<and> edge_key y = k"

text \<open>
  Modelled from the spec: the merge policy on one key, where the new properties may lack
  the key (\<open>merge_properties\<close> read at one key).
\<close>

definition write_value :: "pyobj option \<Rightarrow> pyobj option \<Rightarrow> pyobj option" where
  "write_value v old = (case v of None \<Rightarrow> old | Some x \<Rightarrow> Some (merge_value old x))"

section \<open>Inputs of the examples\<close>

text \<open>The client with the defaults of \<^verbatim>\<open>OllamaClient.__init__\<close>.\<close>

definition example_client :: OllamaClient where
  "example_client = OllamaClient_init (py ''http://ollama:11434'') (py ''llama3.2:3b'')"

text \<open>The limits of CPython as it starts, with nothing on the stack.\<close>

definition cpython :: interpreter where
  "cpython = \<lparr>recursion_left = 1000, int_max_str_digits = 4300\<rparr>"

text \<open>A fresh world whose backend gives the same reply to every request.\<close>

definition answering :: "http_reply \<Rightarrow> world" where
  "answering reply =
     \<lparr>backend = (\<lambda>i. reply), posts = [], sleeps = [], log = [], interp = cpython\<rparr>"

text \<open>
  A fresh world whose backend answers every request with status 200 and the JSON
  object \<^verbatim>\<open>{"response": response}\<close>.
\<close>

definition replying :: "pyobj \<Rightarrow> world" where
  "replying response = answering (Response 200 (Inr (PyDict [(py ''response'', response)])))"

text \<open>A fresh world whose backend raises \<open>e\<close> at the first request and replies to the later ones.\<close>

definition failing :: "exn \<Rightarrow> http_reply \<Rightarrow> world" where
  "failing e reply =
     \<lparr>backend = (\<lambda>i. if i = 0 then PostRaises e else reply), posts = [], sleeps = [], log = [],
      interp = cpython\<rparr>"

text \<open>A response of seventeen lines: a heading, an empty line and fifteen candidates.\<close>

definition fifteen_lines :: str where
  "fifteen_lines = py
     (''# Insights\<newline>'' @
      ''\<newline>'' @
      ''  i1  \<newline>i2\<newline>i3\<newline>i4\<newline>i5\<newline>i6\<newline>i7\<newline>i8\<newline>'' @
      ''i9\<newline>i10\<newline>i11\<newline>i12\<newline>i13\<newline>i14\<newline>i15'')"

text \<open>An extraction result as the model is asked to write it, and the object it decodes to.\<close>

definition light_json :: str where
  \<open>light_json = py
     ''{"entities": [{"name": "light", "type": "device", "properties": {}}], "relationships": []}''\<close>

definition light_result :: pyobj where
  "light_result = PyDict
     [(py ''entities'', PyList [PyDict
         [(py ''name'', PyStr (py ''light'')), (py ''type'', PyStr (py ''device'')),
          (py ''properties'', PyDict [])]]),
      (py ''relationships'', PyList [])]"

text \<open>An engine with every required variable set, no graph, nothing logged.\<close>

definition configured :: "unit engine" where
  "configured =
     \<lparr>graph = (), environ = (\<lambda>var. if var \<in> set required_vars then Some (py ''set'') else None),
      logged = [], waits = []\<rparr>"

text \<open>
  An iteration in which nothing is raised, and one in which the graph update and the
  call of the model fail.
\<close>

definition quiet :: cycle_env where
  "quiet = \<lparr>now = py ''2024-01-01T00:00:00'', sensor_fault = None, insight_fault = None,
            cycle_fault = None, sleep_fault = None\<rparr>"

definition failing_cycle :: cycle_env where
  "failing_cycle = quiet\<lparr>sensor_fault := Some (OtherException ''graph store down''),
                          insight_fault := Some TimeoutError\<rparr>"

text \<open>
  An iteration with failures only: whatever is raised while the event is processed,
  while the insights are generated or in between is an instance of \<^verbatim>\<open>Exception\<close>, and
  the sleep after the cycle completes.
\<close>

definition failures_only :: "cycle_env \<Rightarrow> bool" where
  "failures_only env \<longleftrightarrow>
     (case sensor_fault env of None \<Rightarrow> True | Some e \<Rightarrow> is_Exception e) \<and>
     (case insight_fault env of None \<Rightarrow> True | Some e \<Rightarrow> is_Exception e) \<and>
     (case cycle_fault env of None \<Rightarrow> True | Some e \<Rightarrow> is_Exception e) \<and>
     sleep_fault env = None"

text \<open>
  A graph of two nodes and one active edge, seen at time 10, and the Extraction Result
  of an event at time 20: the first node again, with a new status and one more tag, a
  node that is new, and between the first two nodes a relationship of another type.
  Here a relationship type conflicts with every other type, and the embedding of a name
  is stood for by its length.
\<close>

definition other_type :: "str \<Rightarrow> str \<Rightarrow> bool" where
  "other_type new active \<longleftrightarrow> new \<noteq> active"

definition home :: "nat graph_state" where
  "home =
     \<lparr>graph_nodes =
        [\<lparr>node_id = 1, canonical_name = py ''sensor'', node_type = py ''device'',
          properties = [py ''status'' \<mapsto> PyStr (py ''on''), py ''tags'' \<mapsto> PyList [PyStr (py ''a'')]],
          embedding = 6, first_seen = 10, last_seen = 10\<rparr>,
         \<lparr>node_id = 2, canonical_name = py ''door'', node_type = py ''location'',
          properties = Map.empty, embedding = 4, first_seen = 10, last_seen = 10\<rparr>],
      graph_edges =
        [\<lparr>source_id = 1, target_id = 2, edge_type = py ''near'', edge_properties = Map.empty,
          valid_from = 10, valid_to = None, edge_last_seen = 10\<rparr>]\<rparr>"

definition report :: extraction_result where
  "report =
     \<lparr>entities =
        [\<lparr>node_id = 1, canonical_name = py ''sensor'', node_type = py ''device'',
          entity_properties =
            [py ''status'' \<mapsto> PyStr (py ''off''), py ''tags'' \<mapsto> PyList [PyStr (py ''b'')]]\<rparr>,
         \<lparr>node_id = 3, canonical_name = py ''window'', node_type = py ''location'',
          entity_properties = Map.empty\<rparr>],
      relationships =
        [\<lparr>rel_source = 1, rel_target = 2, rel_type = py ''far'', rel_properties = Map.empty\<rparr>],
      source_event_id = 7, event_timestamp = 20\<rparr>"

section \<open>Lemmas\<close>

subsection \<open>The exceptions of the decoder\<close>

text \<open>
  The decoder fails with \<^verbatim>\<open>JSONDecodeError\<close>, with \<^verbatim>\<open>RecursionError\<close> or with the
  \<^verbatim>\<open>ValueError\<close> of \<^verbatim>\<open>int\<close>, and with nothing else.
\<close>

lemma append_char_error_iff [simp]:
  "append_char c x = Inl e \<longleftrightarrow> x = Inl e"
  by (auto simp: append_char_def split: sum.splits)

lemma scanstring_error: "scanstring s = Inl e \<Longrightarrow> is_JSONDecodeError e"
proof (induction s rule: scanstring.induct)
  case 1
  then show ?case by auto
next
  case (2 c cs)
  show ?case
    using "2.prems" "2.IH"
    by (simp split: if_splits list.splits option.splits) auto
qed

lemma match_number_error: "match_number m s = Some (Inl e) \<Longrightarrow> e = int_limit_error"
  by (auto simp: match_number_def parse_int_def Let_def
      split: option.splits prod.splits if_splits sum.splits list.splits)

lemma scan_error:
  "scan_once m h s = Inl e \<Longrightarrow>
     is_JSONDecodeError e \<or> e = RecursionError \<or> e = int_limit_error"
  "array_loop m1 h1 s1 vs = Inl e1 \<Longrightarrow>
     is_JSONDecodeError e1 \<or> e1 = RecursionError \<or> e1 = int_limit_error"
  "object_loop m2 h2 s2 ps = Inl e2 \<Longrightarrow>
     is_JSONDecodeError e2 \<or> e2 = RecursionError \<or> e2 = int_limit_error"
proof (induction m h s and m1 h1 s1 vs and m2 h2 s2 ps arbitrary: e and e1 and e2
    rule: scan_once_array_loop_object_loop.induct)
  case (1 m h)
  then show ?case by auto
next
  case (2 m h c cs)
  consider (str) "c = 34" | (obj) "c \<noteq> 34" "c = 123" | (arr) "c \<noteq> 34" "c \<noteq> 123" "c = 91"
    | (other) "c \<noteq> 34" "c \<noteq> 123" "c \<noteq> 91" by blast
  then show ?case
  proof cases
    case str
    with "2.prems" show ?thesis
      by (auto split: sum.splits dest: scanstring_error)
  next
    case obj
    with "2.prems" "2.IH"(1) show ?thesis
      by (simp split: list.splits if_splits) auto
  next
    case arr
    with "2.prems" "2.IH"(2) show ?thesis
      by (simp split: list.splits if_splits) auto
  next
    case other
    with "2.prems" show ?thesis
      by (simp split: if_splits option.splits prod.splits) (auto dest: match_number_error)
  qed
next
  case (3 m h s vals)
  show ?case
    using "3.prems" "3.IH"
    by (subst (asm) array_loop.simps)
      (simp split: sum.splits prod.splits list.splits if_splits, auto)
next
  case (4 m h s pairs)
  show ?case
    using "4.prems" "4.IH"
    by (subst (asm) object_loop.simps)
      (simp split: sum.splits prod.splits list.splits if_splits, auto dest: scanstring_error)
qed

lemma json_loads_error:
  "json_loads ip s = Inl e \<Longrightarrow>
     is_JSONDecodeError e \<or> e = RecursionError \<or> e = int_limit_error"
  by (auto simp: json_loads_def split: if_splits sum.splits dest: scan_error(1))

subsection \<open>A JSON document starts with neither the letter j nor a backquote\<close>

lemma json_loads_first_char:
  assumes "json_loads ip s = Inr v"
  shows "s \<noteq> [] \<and> hd s \<noteq> 106 \<and> hd s \<noteq> 96"
proof (cases s)
  case Nil
  with assms show ?thesis by (simp add: json_loads_def startswith_def skip_ws_def)
next
  case (Cons c cs)
  have "c \<noteq> 106"
  proof
    assume c: "c = 106"
    then have "skip_ws s = s" by (simp add: Cons skip_ws_def is_json_ws_def)
    with assms c show False
      by (simp add: json_loads_def Cons match_number_def is_digit_def split: if_splits)
  qed
  moreover have "c \<noteq> 96"
  proof
    assume c: "c = 96"
    then have "skip_ws s = s" by (simp add: Cons skip_ws_def is_json_ws_def)
    with assms c show False
      by (simp add: json_loads_def Cons match_number_def is_digit_def split: if_splits)
  qed
  ultimately show ?thesis by (simp add: Cons)
qed

subsection \<open>Stripping a fence\<close>

lemma strip_between:
  assumes "p \<noteq> []" "\<not> isspace (hd p)" "q \<noteq> []" "\<not> isspace (last q)"
  shows "strip (p @ s @ q) = p @ s @ q"
proof -
  from assms obtain a p' where p: "p = a # p'" and a: "\<not> isspace a" by (cases p) auto
  from assms obtain b q' where q: "q = q' @ [b]" and b: "\<not> isspace b"
    by (cases q rule: rev_cases) auto
  show ?thesis by (simp add: strip_def lstrip_def rstrip_def p q a b)
qed

lemma strip_fences_json:
  "strip_fences (py ''```json'' @ s @ py ''```'') = s"
proof -
  have st: "strip (py ''```json'' @ s @ py ''```'') = py ''```json'' @ s @ py ''```''"
    by (rule strip_between) (simp_all add: isspace_def)
  have sw: "startswith (py ''```json'' @ s @ py ''```'') (py ''```json'')"
    by (simp add: startswith_def)
  have sl: "slice_to_end (py ''```json'' @ s @ py ''```'') 7 3 = s"
    by (simp add: slice_to_end_def)
  show ?thesis unfolding strip_fences_def Let_def st sl using sw by simp
qed

lemma strip_fences_plain:
  assumes "s = [] \<or> hd s \<noteq> 106"
  shows "strip_fences (py ''```'' @ s @ py ''```'') = s"
proof -
  have st: "strip (py ''```'' @ s @ py ''```'') = py ''```'' @ s @ py ''```''"
    by (rule strip_between) (simp_all add: isspace_def)
  have sw: "\<not> startswith (py ''```'' @ s @ py ''```'') (py ''```json'')"
    using assms by (cases s) (auto simp: startswith_def)
  have sw': "startswith (py ''```'' @ s @ py ''```'') (py ''```'')"
    by (simp add: startswith_def)
  have sl: "slice_to_end (py ''```'' @ s @ py ''```'') 3 3 = s"
    by (simp add: slice_to_end_def)
  show ?thesis unfolding strip_fences_def Let_def st sl using sw sw' by simp
qed

subsection \<open>What the client returns and does, read off the reply to its one request\<close>

lemma generate_completion_fst:
  "fst (generate_completion self prompt system_prompt w) =
     (case backend w (length (posts w)) of
        PostRaises e \<Rightarrow> if is_Exception e then Inr (PyStr []) else Inl e
      | Response status json \<Rightarrow>
          if status = 200 then
            (case json of
               Inl e \<Rightarrow> if is_Exception e then Inr (PyStr []) else Inl e
             | Inr result \<Rightarrow>
                 (case get result (py ''response'') (PyStr []) of
                    Inl e \<Rightarrow> Inr (PyStr [])
                  | Inr v \<Rightarrow> Inr v))
          else Inr (PyStr []))"
  by (simp add: generate_completion_def post_def get_def Let_def
      split: http_reply.splits sum.splits pyobj.splits option.splits)

lemma generate_embeddings_fst:
  "fst (generate_embeddings self content w) =
     (case backend w (length (posts w)) of
        PostRaises e \<Rightarrow> if is_Exception e then Inr (PyList []) else Inl e
      | Response status json \<Rightarrow>
          if status = 200 then
            (case json of
               Inl e \<Rightarrow> if is_Exception e then Inr (PyList []) else Inl e
             | Inr result \<Rightarrow>
                 (case get result (py ''embedding'') (PyList []) of
                    Inl e \<Rightarrow> Inr (PyList [])
                  | Inr v \<Rightarrow> Inr v))
          else Inr (PyList []))"
  by (simp add: generate_embeddings_def post_def get_def Let_def
      split: http_reply.splits sum.splits pyobj.splits option.splits)

lemma generate_completion_effects:
  "length (posts (snd (generate_completion self prompt system_prompt w))) = length (posts w) + 1
   \<and> sleeps (snd (generate_completion self prompt system_prompt w)) = sleeps w"
  by (simp add: generate_completion_def post_def get_def Let_def
      split: http_reply.splits sum.splits pyobj.splits option.splits)

lemma generate_completion_interp:
  "interp (snd (generate_completion self prompt system_prompt w)) = interp w"
  by (simp add: generate_completion_def post_def get_def Let_def
      split: http_reply.splits sum.splits pyobj.splits option.splits)

lemma parse_response_effects:
  "posts (snd (parse_response response w)) = posts w
   \<and> sleeps (snd (parse_response response w)) = sleeps w"
  by (simp add: parse_response_def Let_def split: pyobj.splits sum.splits)

lemma extract_effects:
  "length (posts (snd (extract_entities_and_relationships self event_text w))) =
     length (posts w) + 1
   \<and> sleeps (snd (extract_entities_and_relationships self event_text w)) = sleeps w"
proof -
  obtain r w1 where gc: "generate_completion self (extraction_prompt event_text)
      (PyStr extraction_system_prompt) w = (r, w1)"
    by (cases "generate_completion self (extraction_prompt event_text)
      (PyStr extraction_system_prompt) w")
  from generate_completion_effects [of self "extraction_prompt event_text"
      "PyStr extraction_system_prompt" w] gc
  have w1: "length (posts w1) = length (posts w) + 1" "sleeps w1 = sleeps w" by simp_all
  show ?thesis
    using w1 parse_response_effects [of _ w1]
    by (cases r) (simp_all add: extract_entities_and_relationships_def gc)
qed

text \<open>The extraction of an event whose completion is the text \<open>raw\<close>.\<close>

lemma extract_of_text:
  assumes "fst (generate_completion self (extraction_prompt event_text)
                  (PyStr extraction_system_prompt) w) = Inr (PyStr raw)"
  shows "fst (extract_entities_and_relationships self event_text w) =
           (case json_loads (interp w) (strip_fences raw) of
              Inl e \<Rightarrow> if is_JSONDecodeError e then Inr empty_result else Inl e
            | Inr v \<Rightarrow> Inr v)"
proof -
  obtain r w1 where gc: "generate_completion self (extraction_prompt event_text)
      (PyStr extraction_system_prompt) w = (r, w1)"
    by (cases "generate_completion self (extraction_prompt event_text)
      (PyStr extraction_system_prompt) w")
  with assms have r: "r = Inr (PyStr raw)" by simp
  from generate_completion_interp [of self "extraction_prompt event_text"
      "PyStr extraction_system_prompt" w] gc
  have ip: "interp w1 = interp w" by simp
  show ?thesis
    by (cases "json_loads (interp w) (strip_fences raw)")
      (simp_all add: extract_entities_and_relationships_def gc r parse_response_def ip)
qed

text \<open>The facts that evaluate the decoder on a given text.\<close>

lemmas eval_json =
  strip_fences_def strip_def lstrip_def rstrip_def isspace_def startswith_def slice_to_end_def
  json_loads_def skip_ws_def is_json_ws_def match_number_def match_frac_def match_exp_def
  is_digit_def parse_int_def int_of_digits_def array_loop.simps object_loop.simps dict_def
  append_char_def BACKSLASH_def cpython_def

lemma empty_text_is_no_json:
  "json_loads ip (strip_fences []) = Inl (JSONDecodeError ''Expecting value'')"
  by (simp add: eval_json)

lemma light_json_decodes: "json_loads cpython (strip_fences light_json) = Inr light_result"
  by (simp add: light_json_def light_result_def eval_json)

text \<open>More opening brackets than the interpreter can enter arrays.\<close>

lemma scan_open_brackets:
  "h < n \<Longrightarrow> scan_once m h (replicate n 91) = Inl RecursionError"
proof (induction h arbitrary: n)
  case 0
  then obtain k where "n = Suc k" by (cases n) auto
  then show ?case by simp
next
  case (Suc h)
  then obtain k where n: "n = Suc (Suc k)" by (cases n; cases "n - 1") auto
  with Suc.prems have "h < Suc k" by simp
  from Suc.IH [OF this] have "scan_once m h (91 # replicate k 91) = Inl RecursionError" by simp
  then have "array_loop m h (91 # replicate k 91) [] = Inl RecursionError"
    by (subst array_loop.simps) simp
  then show ?case by (simp add: n skip_ws_def is_json_ws_def)
qed

lemma open_brackets_raise:
  assumes "recursion_left ip < Suc n"
  shows "json_loads ip (strip_fences (replicate (Suc n) 91)) = Inl RecursionError"
proof -
  have "lstrip (replicate (Suc n) 91) = replicate (Suc n) 91"
    by (simp add: lstrip_def isspace_def)
  moreover have "rev (replicate (Suc n) (91::nat)) = replicate (Suc n) 91"
    by (simp only: rev_replicate)
  ultimately have "strip (replicate (Suc n) 91) = replicate (Suc n) 91"
    by (simp add: strip_def rstrip_def isspace_def del: replicate_Suc replicate.simps)
  then have "strip_fences (replicate (Suc n) 91) = replicate (Suc n) 91"
    by (simp add: strip_fences_def startswith_def)
  with scan_open_brackets [OF assms] show ?thesis
    by (simp add: json_loads_def startswith_def skip_ws_def is_json_ws_def)
qed

lemma interp_answering [simp]: "interp (answering r) = cpython"
  by (simp add: answering_def)

lemma interp_replying [simp]: "interp (replying v) = cpython"
  by (simp add: replying_def)

lemma interp_failing [simp]: "interp (failing e r) = cpython"
  by (simp add: failing_def)

lemma backend_answering: "backend (answering r) (length (posts (answering r))) = r"
  by (simp add: answering_def)

lemma completion_replying:
  "fst (generate_completion self prompt system_prompt (replying (PyStr raw))) = Inr (PyStr raw)"
  by (simp add: generate_completion_fst replying_def answering_def get_def)

subsection \<open>The insights are stripped lines\<close>

lemma insights_of_props:
  "i \<in> set (insights_of response) \<Longrightarrow>
     i \<noteq> [] \<and> \<not> startswith i [35] \<and> (\<exists>line \<in> set (split response 10). i = strip line)"
  by (auto simp: insights_of_def)

subsection \<open>The engine: what one iteration and the main loop change\<close>

lemma logger_simps [simp]:
  "graph (logger lvl msg s) = graph s"
  "environ (logger lvl msg s) = environ s"
  "waits (logger lvl msg s) = waits s"
  "logged (logger lvl msg s) = (if lvl = DEBUG then logged s else logged s @ [(lvl, msg)])"
  by (simp_all add: logger_def)

lemma get_sample_data [simp]:
  "get (sample_data env) key dflt =
     Inr (case map_of [(py ''device_id'', PyStr (py ''temp_sensor_01'')),
                       (py ''sensor_type'', PyStr (py ''temperature'')),
                       (py ''value'', PyFloat (py ''22.5'')),
                       (py ''location'', PyStr (py ''living_room'')),
                       (py ''timestamp'', PyStr (now env))] key of
            Some v \<Rightarrow> v | None \<Rightarrow> dflt)"
  by (simp add: get_def sample_data_def split: option.splits)

lemma process_sensor_data_frame:
  "graph (snd (process_sensor_data env data s)) = graph s
   \<and> environ (snd (process_sensor_data env data s)) = environ s
   \<and> waits (snd (process_sensor_data env data s)) = waits s"
  by (simp add: process_sensor_data_def except_Exception_def Let_def
      split: sum.splits option.splits prod.splits)

lemma process_sample:
  "process_sensor_data env (sample_data env) s =
     (case sensor_fault env of
        None \<Rightarrow> (Inr (), logger INFO (Processed_data_from_device (PyStr (py ''temperature''))
                                     (PyStr (py ''temp_sensor_01''))) s)
      | Some e \<Rightarrow> except_Exception Error_processing_sensor_data () e s)"
  by (simp add: process_sensor_data_def logger_def split: option.splits)

lemma cycle_contained:
  assumes "failures_only env"
  shows "fst (run_processing_cycle env s) = Inr ()"
    and "graph (snd (run_processing_cycle env s)) = graph s"
    and "environ (snd (run_processing_cycle env s)) = environ s"
    and "waits (snd (run_processing_cycle env s)) = waits s"
    and "sensor_fault env = Some e \<Longrightarrow>
           (ERROR, Error_processing_sensor_data e) \<in> set (logged (snd (run_processing_cycle env s)))"
    and "cycle_fault env = Some e \<Longrightarrow>
           (ERROR, Error_in_processing_cycle e) \<in> set (logged (snd (run_processing_cycle env s)))"
    and "cycle_fault env = None \<Longrightarrow> insight_fault env = Some e \<Longrightarrow>
           (ERROR, Error_generating_insights e) \<in> set (logged (snd (run_processing_cycle env s)))"
  using assms
  by (auto simp: failures_only_def run_processing_cycle_def process_sample generate_insights_def
      except_Exception_def Let_def split: option.splits)

lemma main_loop_contained:
  "list_all failures_only envs \<Longrightarrow>
     fst (main_loop envs n s) = Inr ()
     \<and> waits (snd (main_loop envs n s)) = waits s @ replicate (length envs) 60
     \<and> graph (snd (main_loop envs n s)) = graph s"
proof (induction envs arbitrary: n s)
  case Nil
  then show ?case by simp
next
  case (Cons env envs)
  then have f: "failures_only env" and fs: "list_all failures_only envs" by simp_all
  obtain r s1 where c: "run_processing_cycle env (logger INFO (Cycle (n + 1)) s) = (r, s1)"
    by (cases "run_processing_cycle env (logger INFO (Cycle (n + 1)) s)")
  from cycle_contained(1,2,4) [OF f, where s = "logger INFO (Cycle (n + 1)) s"] c
  have r: "r = Inr ()" and g: "graph s1 = graph s" and w: "waits s1 = waits s" by simp_all
  from f have i: "sleep_fault env = None" by (simp add: failures_only_def)
  from Cons.IH [OF fs, of "n + 1" "s1\<lparr>waits := waits s1 @ [60]\<rparr>"] c r g w i
  show ?case by (simp add: replicate_append_same)
qed

lemma check_environment_logger [simp]:
  "fst (check_environment (logger lvl msg s)) = fst (check_environment s)"
  by (simp add: check_environment_def Let_def)

lemma check_environment_frame [simp]:
  "graph (snd (check_environment s)) = graph s"
  "waits (snd (check_environment s)) = waits s"
  by (simp_all add: check_environment_def Let_def)

lemma initialize_services_frame [simp]:
  "graph (snd (initialize_services s)) = graph s"
  "waits (snd (initialize_services s)) = waits s"
  by (simp_all add: initialize_services_def test_connection_def Let_def)

lemma run_contained:
  assumes "list_all failures_only envs"
  shows "fst (run envs s) = (if fst (check_environment s) then Running else Raised (SystemExit 1))"
    and "fst (check_environment s) \<Longrightarrow>
           waits (snd (run envs s)) = waits s @ replicate (length envs) 60"
    and "graph (snd (run envs s)) = graph s"
proof -
  obtain ok s1 where ce: "check_environment (logger INFO Starting_Graphiti_Engine s) = (ok, s1)"
    by (cases "check_environment (logger INFO Starting_Graphiti_Engine s)")
  then have ok: "ok = fst (check_environment s)"
    using check_environment_logger [of INFO Starting_Graphiti_Engine s] by simp
  from ce check_environment_frame [of "logger INFO Starting_Graphiti_Engine s"]
  have s1: "graph s1 = graph s" "waits s1 = waits s" by simp_all
  obtain b s2 where ini: "initialize_services s1 = (b, s2)"
    by (cases "initialize_services s1")
  with initialize_services_frame [of s1] s1
  have s2: "graph s2 = graph s" "waits s2 = waits s" by simp_all
  obtain r s3 where ml: "main_loop envs 0 s2 = (r, s3)"
    by (cases "main_loop envs 0 s2")
  with main_loop_contained [OF assms, of 0 s2] s2
  have r: "r = Inr ()" and s3: "waits s3 = waits s @ replicate (length envs) 60" "graph s3 = graph s"
    by simp_all
  show "fst (run envs s) = (if fst (check_environment s) then Running else Raised (SystemExit 1))"
    by (simp add: run_def ce ok [symmetric] ini ml r)
  show "waits (snd (run envs s)) = waits s @ replicate (length envs) 60"
    if "fst (check_environment s)"
    using that by (simp add: run_def ce ok [symmetric] ini ml r s3)
  show "graph (snd (run envs s)) = graph s"
    by (simp add: run_def ce ini ml r s3 s1)
qed

text \<open>The facts that evaluate the engine on the inputs of the examples.\<close>

lemmas eval_main =
  run_def check_environment_def initialize_services_def test_connection_def
  run_processing_cycle_def process_sample generate_insights_def except_Exception_def
  logger_def required_vars_def configured_def quiet_def failing_cycle_def
  failures_only_def

subsection \<open>The resolver\<close>

lemma canonical_key_Living_Room_Sensor:
  "canonical_key (py ''Living Room Sensor'') = py ''living room sensor''"
  by (simp add: canonical_key_def casefold_def strip_def lstrip_def rstrip_def isspace_def)

lemma canonical_key_living_room_sensor:
  "canonical_key (py ''living room sensor '') = py ''living room sensor''"
  by (simp add: canonical_key_def casefold_def strip_def lstrip_def rstrip_def isspace_def)

lemma find_append_None:
  "find P xs = None \<Longrightarrow> find P (xs @ ys) = find P ys"
  by (induction xs) (auto split: if_splits)

lemma resolve_same_key:
  assumes "canonical_key (raw_name e2) = canonical_key (raw_name e1)" and "raw_type e2 = raw_type e1"
  shows "resolve similar nodes e2 = resolve similar nodes e1"
  unfolding resolve_def assms by (rule refl)

lemma resolve_again:
  assumes "canonical_key (raw_name e2) = canonical_key (raw_name e1)" and "raw_type e2 = raw_type e1"
  shows "resolve similar (snd (resolve similar nodes e1)) e2 = resolve similar nodes e1"
proof (cases "find (\<lambda>n. canonical_name n = canonical_key (raw_name e1)) nodes")
  case (Some n)
  with assms show ?thesis by (auto simp: resolve_def)
next
  case None
  note exact = this
  show ?thesis
  proof (cases "find (\<lambda>n. node_type n = raw_type e1 \<and> similar (canonical_key (raw_name e1)) n) nodes")
    case (Some n)
    with exact assms show ?thesis by (auto simp: resolve_def)
  next
    case None
    with exact assms show ?thesis
      by (auto simp: resolve_def find_append_None)
  qed
qed

subsection \<open>The text without its last characters\<close>

lemma chop_Nil [simp]: "chop n [] = []"
  by (simp add: chop_def)

lemma chop_0 [simp]: "chop 0 xs = xs"
  by (simp add: chop_def)

lemma chop_all [simp]: "chop (length xs) xs = []"
  by (simp add: chop_def)

lemma length_chop [simp]: "length (chop n xs) = length xs - n"
  by (simp add: chop_def)

lemma chop_Cons: "n \<le> length xs \<Longrightarrow> chop n (x # xs) = x # chop n xs"
  by (simp add: chop_def Suc_diff_le)

lemma chop_Cons_all: "chop (Suc (length xs)) (x # xs) = []"
  by (simp add: chop_def)

lemma chop_drop: "drop k (chop n xs) = chop n (drop k xs)"
  by (simp add: chop_def drop_take add.commute)

lemma chop_take: "k + n \<le> length xs \<Longrightarrow> take k (chop n xs) = take k xs"
  by (auto simp: chop_def min_def)

lemma dropWhile_chop:
  "n \<le> length (dropWhile P xs) \<Longrightarrow> dropWhile P (chop n xs) = chop n (dropWhile P xs)"
proof (induction xs)
  case Nil
  then show ?case by simp
next
  case (Cons x xs)
  show ?case
  proof (cases "P x")
    case True
    with Cons.prems have n: "n \<le> length (dropWhile P xs)" by simp
    then have "n \<le> length xs" using length_dropWhile_le [of P xs] by simp
    with True Cons.IH [OF n] show ?thesis by (simp add: chop_Cons)
  next
    case False
    with Cons.prems have "n \<le> Suc (length xs)" by simp
    then show ?thesis
    proof (cases "n = Suc (length xs)")
      case True
      then show ?thesis using False by (simp add: chop_Cons_all)
    next
      case F: False
      with \<open>n \<le> Suc (length xs)\<close> have "n \<le> length xs" by simp
      then show ?thesis using False by (simp add: chop_Cons)
    qed
  qed
qed

lemma takeWhile_chop:
  "n \<le> length (dropWhile P xs) \<Longrightarrow> takeWhile P (chop n xs) = takeWhile P xs"
proof (induction xs)
  case Nil
  then show ?case by simp
next
  case (Cons x xs)
  show ?case
  proof (cases "P x")
    case True
    with Cons.prems have n: "n \<le> length (dropWhile P xs)" by simp
    then have "n \<le> length xs" using length_dropWhile_le [of P xs] by simp
    with True Cons.IH [OF n] show ?thesis by (simp add: chop_Cons)
  next
    case False
    with Cons.prems have "n \<le> Suc (length xs)" by simp
    then show ?thesis
    proof (cases "n = Suc (length xs)")
      case True
      then show ?thesis using False by (simp add: chop_Cons_all)
    next
      case F: False
      with \<open>n \<le> Suc (length xs)\<close> have "n \<le> length xs" by simp
      then show ?thesis using False by (simp add: chop_Cons)
    qed
  qed
qed

subsection \<open>Cutting the text after a string or a number\<close>

text \<open>
  A scanner that stops with \<open>r\<close> left to read returns the same value when the last
  \<open>n \<le> length r\<close> characters of the text are cut off: it does not look at the text
  after what it reads.
\<close>

lemma skip_ws_chop:
  "n \<le> length (skip_ws xs) \<Longrightarrow> skip_ws (chop n xs) = chop n (skip_ws xs)"
  by (simp add: skip_ws_def dropWhile_chop)

lemma append_char_Inr_iff:
  "append_char c x = Inr (v, r) \<longleftrightarrow> (\<exists>v'. x = Inr (v', r) \<and> v = c # v')"
  by (auto simp: append_char_def split: sum.splits)

lemma scanstring_chop:
  "scanstring s = Inr (v, r) \<Longrightarrow> n \<le> length r \<Longrightarrow> scanstring (chop n s) = Inr (v, chop n r)"
proof (induction s arbitrary: v rule: scanstring.induct)
  case 1
  then show ?case by simp
next
  case (2 c cs)
  from scanstring_length [OF "2.prems"(1)] "2.prems"(2) have ncs: "n \<le> length cs" by simp
  note ch = chop_Cons [OF ncs, of c]
  consider (quote) "c = 34" | (esc) "c \<noteq> 34" "c = 92" | (plain) "c \<noteq> 34" "c \<noteq> 92" by blast
  then show ?case
  proof cases
    case quote
    with "2.prems" show ?thesis unfolding ch by simp
  next
    case plain
    with "2.prems" have c31: "\<not> c \<le> 31" by (auto split: if_splits)
    with plain "2.prems" obtain v' where r: "scanstring cs = Inr (v', r)" and v: "v = c # v'"
      by (auto simp: append_char_Inr_iff)
    from "2.IH"(5) [OF plain c31 r "2.prems"(2)] plain c31 v
    show ?thesis unfolding ch by (simp add: append_char_def)
  next
    case esc
    from esc "2.prems" obtain e es where cs: "cs = e # es"
      by (cases cs) auto
    have ch2: "chop n (c # e # es) = c # e # chop n es" if "n \<le> length es"
      using that by (simp add: chop_Cons)
    show ?thesis
    proof (cases "e = 117")
      case False
      with esc cs "2.prems" obtain d v' where d: "BACKSLASH e = Some d"
        and r: "scanstring es = Inr (v', r)" and v: "v = d # v'"
        by (auto simp: append_char_Inr_iff split: option.splits)
      from scanstring_length [OF r] "2.prems"(2) have "n \<le> length es" by simp
      note ch2 = ch2 [OF this]
      from "2.IH"(1) [OF esc cs False d r "2.prems"(2)] esc False d v
      show ?thesis unfolding cs ch2 by (simp add: append_char_def)
    next
      case True
      then have nn: "\<not> e \<noteq> 117" by simp
      from True esc cs "2.prems" have l4: "\<not> length es \<le> 4" by (auto split: if_splits)
      with True esc cs "2.prems" obtain u where u: "decode_hex (take 4 es) 0 = Some u"
        by (auto split: option.splits)
      let ?hs = "55296 \<le> u \<and> u \<le> 56319 \<and> 6 < length (drop 4 es) \<and> take 2 (drop 4 es) = [92, 117]"
      let ?hs' = "55296 \<le> u \<and> u \<le> 56319 \<and> 6 < length (drop 4 (chop n es))
          \<and> take 2 (drop 4 (chop n es)) = [92, 117]"
      show ?thesis
      proof (cases "?hs \<and> (\<exists>u2. decode_hex (take 4 (drop 6 es)) 0 = Some u2
          \<and> 56320 \<le> u2 \<and> u2 \<le> 57343)")
        case joined: True
        then obtain u2 where hs: ?hs and u2: "decode_hex (take 4 (drop 6 es)) 0 = Some u2"
          and low: "56320 \<le> u2 \<and> u2 \<le> 57343" by blast
        with True esc cs "2.prems" l4 u obtain v' where r: "scanstring (drop 10 es) = Inr (v', r)"
          and v: "v = (65536 + (u - 55296) * 1024 + (u2 - 56320)) # v'"
          by (auto simp: append_char_Inr_iff)
        from scanstring_length [OF r] "2.prems"(2) have len: "n + 10 < length es" by simp
        note ih = "2.IH"(2) [OF esc cs nn l4 u hs u2 low r "2.prems"(2)]
        have t4: "take 4 (chop n es) = take 4 es" using len by (simp add: chop_take)
        from len have l4': "\<not> length es - n \<le> 4" by arith
        have t2: "take 2 (drop 4 (chop n es)) = take 2 (drop 4 es)"
          using len by (simp add: chop_drop chop_take)
        have t6: "take 4 (drop 6 (chop n es)) = take 4 (drop 6 es)"
          using len by (simp add: chop_drop chop_take)
        have hs': ?hs' using hs len t2 by simp
        from len have "n \<le> length es" by simp
        note ch2 = ch2 [OF this]
        from ih True have "scanstring (chop n (drop 10 es)) = Inr (v', chop n r)" by simp
        then show ?thesis
          unfolding cs ch2 using esc True l4' u u2 low hs' t4 t6 v
          by (simp add: chop_drop append_char_def)
      next
        case single: False
        with True esc cs "2.prems" l4 u obtain v' where r: "scanstring (drop 4 es) = Inr (v', r)"
          and v: "v = u # v'"
          by (auto simp: append_char_Inr_iff split: if_splits option.splits)
        from scanstring_length [OF r] "2.prems"(2) have len: "n + 4 < length es" by simp
        have t4: "take 4 (chop n es) = take 4 es" using len by (simp add: chop_take)
        from len have l4': "\<not> length es - n \<le> 4" by arith
        have ih: "scanstring (chop n (drop 4 es)) = Inr (v', chop n r)"
        proof (cases ?hs)
          case hs: True
          with single obtain u2 where u2: "decode_hex (take 4 (drop 6 es)) 0 = Some u2"
            and low: "\<not> (56320 \<le> u2 \<and> u2 \<le> 57343)"
            using True esc cs "2.prems" l4 u by (auto split: option.splits)
          from "2.IH"(3) [OF esc cs nn l4 u hs u2 low r "2.prems"(2)]
          show ?thesis by simp
        next
          case False
          from "2.IH"(4) [OF esc cs nn l4 u False r "2.prems"(2)]
          show ?thesis by simp
        qed
        have "scanstring (c # e # chop n es) = Inr (u # v', chop n r)"
        proof (cases ?hs')
          case hs': True
          then have "6 < length es - (n + 4)" by simp
          then have len6: "n + 10 < length es" by arith
          then have t2: "take 2 (drop 4 (chop n es)) = take 2 (drop 4 es)"
            and t6: "take 4 (drop 6 (chop n es)) = take 4 (drop 6 es)"
            by (simp_all add: chop_drop chop_take)
          from hs' t2 len6 have hs: ?hs by simp
          with single obtain u2 where u2: "decode_hex (take 4 (drop 6 es)) 0 = Some u2"
            and low: "\<not> (56320 \<le> u2 \<and> u2 \<le> 57343)"
            using True esc cs "2.prems" l4 u by (auto split: option.splits)
          show ?thesis
            using esc True l4' u t4 hs' t6 u2 low ih
            by (auto simp: chop_drop append_char_def)
        next
          case False
          then show ?thesis
            using esc True l4' u t4 ih
            by (auto simp: chop_drop append_char_def)
        qed
        moreover from len have "n \<le> length es" by simp
        note ch2 = ch2 [OF this]
        ultimately show ?thesis unfolding cs ch2 using v by simp
      qed
    qed
  qed
qed

lemma match_digits_chop:
  assumes m: "match_digits s = Some (i, r)" and n: "n \<le> length r"
  shows "match_digits (chop n s) = Some (i, chop n r)"
proof (cases s)
  case Nil
  with m show ?thesis by simp
next
  case (Cons d ds)
  from match_digits_length [OF m] n Cons have nds: "n \<le> length ds" by simp
  show ?thesis
  proof (cases "d = 48")
    case True
    with m Cons show ?thesis unfolding Cons chop_Cons [OF nds] by auto
  next
    case False
    with m Cons have dig: "is_digit d" and i: "i = d # takeWhile is_digit ds"
      and r: "r = dropWhile is_digit ds"
      by (auto split: if_splits)
    from n r have "n \<le> length (dropWhile is_digit ds)" by simp
    from dropWhile_chop [OF this] takeWhile_chop [OF this] False dig i r
    show ?thesis by (simp add: Cons chop_Cons [OF nds])
  qed
qed

lemma match_integer_chop:
  assumes m: "match_integer s = Some (i, r)" and n: "n \<le> length r"
  shows "match_integer (chop n s) = Some (i, chop n r)"
proof (cases s)
  case Nil
  with m show ?thesis by simp
next
  case (Cons c cs)
  show ?thesis
  proof (cases "c = 45")
    case True
    with m Cons obtain i' where md: "match_digits cs = Some (i', r)" and i: "i = c # i'"
      by (auto split: option.splits)
    from match_digits_length [OF md] n have "n \<le> length cs" by simp
    from chop_Cons [OF this] match_digits_chop [OF md n] True i
    show ?thesis by (simp add: Cons)
  next
    case False
    with m Cons have md: "match_digits (c # cs) = Some (i, r)" by simp
    from match_digits_length [OF md] n have ncs: "n \<le> length cs" by simp
    from match_digits_chop [OF md n] False show ?thesis
      unfolding Cons chop_Cons [OF ncs] by simp
  qed
qed

lemma chop_Cons_if: "chop n (x # xs) = (if n \<le> length xs then x # chop n xs else [])"
  by (simp add: chop_def Suc_diff_le)

lemma match_frac_chop:
  assumes m: "match_frac s = (f, r)" and n: "n \<le> length r"
  shows "match_frac (chop n s) = (f, chop n r)"
proof (cases s)
  case Nil
  with m show ?thesis by (auto simp: match_frac_def)
next
  case s1: (Cons d s')
  show ?thesis
  proof (cases s')
    case Nil
    with s1 m have "f = []" "r = [d]" by (auto simp: match_frac_def)
    then show ?thesis
      unfolding s1 Nil by (auto simp: match_frac_def chop_Cons_if)
  next
    case (Cons f' fs)
    show ?thesis
    proof (cases "d = 46 \<and> is_digit f'")
      case True
      with m s1 Cons have f: "f = d # f' # takeWhile is_digit fs" and r: "r = dropWhile is_digit fs"
        by (auto simp: match_frac_def)
      from n r have nd: "n \<le> length (dropWhile is_digit fs)" by simp
      then have nfs: "n \<le> length fs" using length_dropWhile_le [of is_digit fs] by simp
      then have "chop n s = d # f' # chop n fs" by (simp add: s1 Cons chop_Cons)
      with dropWhile_chop [OF nd] takeWhile_chop [OF nd] True f r
      show ?thesis by (simp add: match_frac_def)
    next
      case False
      with m s1 Cons have f: "f = []" and r: "r = d # f' # fs"
        by (auto simp: match_frac_def)
      with False show ?thesis
        unfolding s1 Cons by (auto simp: match_frac_def chop_Cons_if split: list.splits)
    qed
  qed
qed

lemma hd_dropWhile_chop:
  "n < length xs \<Longrightarrow> hd (chop n xs) = hd xs"
  by (cases xs) (auto simp: chop_Cons_if)

lemma chop_Nil_or_hd: "chop n xs = [] \<or> hd (chop n xs) = hd xs"
  by (cases xs) (auto simp: chop_Cons_if)

lemma chop_eq_Nil_iff: "chop n xs = [] \<longleftrightarrow> length xs \<le> n"
  by (auto simp: chop_def)

lemma match_exp_Cons:
  "match_exp (e # t) =
     (if e = 101 \<or> e = 69 then
        (if drop (length (if startswith t [45] \<or> startswith t [43] then take 1 t else [])) t \<noteq> []
            \<and> is_digit (hd (drop (length (if startswith t [45] \<or> startswith t [43]
                  then take 1 t else [])) t))
         then (e # (if startswith t [45] \<or> startswith t [43] then take 1 t else []) @
                 takeWhile is_digit
                   (drop (length (if startswith t [45] \<or> startswith t [43]
                      then take 1 t else [])) t),
               dropWhile is_digit
                 (drop (length (if startswith t [45] \<or> startswith t [43]
                    then take 1 t else [])) t))
         else ([], e # t))
      else ([], e # t))"
  by (simp add: match_exp_def Let_def)

lemma match_exp_chop:
  assumes m: "match_exp s = (x, r)" and n: "n \<le> length r"
  shows "match_exp (chop n s) = (x, chop n r)"
proof (cases s)
  case Nil
  with m show ?thesis by (auto simp: match_exp_def)
next
  case s1: (Cons e t)
  let ?sign = "if startswith t [45] \<or> startswith t [43] then take 1 t else []"
  let ?t1 = "drop (length ?sign) t"
  show ?thesis
  proof (cases "(e = 101 \<or> e = 69) \<and> ?t1 \<noteq> [] \<and> is_digit (hd ?t1)")
    case True
    have "x = e # ?sign @ takeWhile is_digit ?t1 \<and> r = dropWhile is_digit ?t1"
      using m True unfolding s1 match_exp_Cons by (auto split: if_splits)
    then have x: "x = e # ?sign @ takeWhile is_digit ?t1" and r: "r = dropWhile is_digit ?t1"
      by simp_all
    from True obtain d ds where t1: "?t1 = d # ds" and d: "is_digit d" by (cases ?t1) auto
    from n r t1 d have nds: "n \<le> length (dropWhile is_digit ds)" by simp
    then have n1: "n \<le> length ds" using length_dropWhile_le [of is_digit ds] by simp
    with t1 have nt1: "n < length ?t1" by simp
    then have nt: "n + length ?sign < length t" by (auto split: if_splits)
    then have ch: "chop n s = e # chop n t" by (simp add: s1 chop_Cons)
    have sw: "startswith (chop n t) p = startswith t p" if "length p \<le> 1" for p
      using that nt by (auto simp: startswith_def chop_take)
    have sign: "(if startswith (chop n t) [45] \<or> startswith (chop n t) [43]
        then take 1 (chop n t) else []) = ?sign"
      using nt by (simp add: sw chop_take)
    have t1': "drop (length ?sign) (chop n t) = d # chop n ds"
      using t1 n1 by (simp only: chop_drop) (simp add: chop_Cons)
    have "match_exp (e # chop n t) =
        (e # ?sign @ takeWhile is_digit (d # chop n ds), dropWhile is_digit (d # chop n ds))"
      unfolding match_exp_Cons sign t1' using True d by simp
    with dropWhile_chop [OF nds] takeWhile_chop [OF nds] d x r t1
    show ?thesis
      unfolding ch by simp
  next
    case False
    have "x = [] \<and> r = s"
      using m False unfolding s1 match_exp_Cons by (auto split: if_splits)
    then have x: "x = []" and r: "r = s" by simp_all
    have "match_exp (chop n s) = ([], chop n s)"
    proof (cases "n \<le> length t")
      case all: False
      then show ?thesis by (simp add: s1 chop_Cons_if match_exp_def)
    next
      case True
      then have ch: "chop n s = e # chop n t" by (simp add: s1 chop_Cons)
      show ?thesis
      proof (cases "e = 101 \<or> e = 69")
        case e: False
        then show ?thesis unfolding ch by (auto simp: match_exp_def)
      next
        case e: True
        let ?sign' = "if startswith (chop n t) [45] \<or> startswith (chop n t) [43]
          then take 1 (chop n t) else []"
        let ?t1' = "drop (length ?sign') (chop n t)"
        have "?t1' = [] \<or> \<not> is_digit (hd ?t1')"
        proof (cases "chop n t")
          case Nil
          then show ?thesis by simp
        next
          case (Cons a as)
          then have a: "t = a # drop 1 t" and nt: "n < length t"
            by (cases t; auto simp: chop_Cons_if split: if_splits)+
          then have st: "startswith (chop n t) [c] = startswith t [c]" for c
            using Cons by (cases t) (auto simp: startswith_def chop_Cons_if split: if_splits)
          have tk: "take 1 (chop n t) = take 1 t"
            using nt by (simp add: chop_take)
          have sign: "?sign' = ?sign" by (simp add: st tk del: One_nat_def)
          have "?t1' = chop n ?t1" by (simp only: sign chop_drop)
          moreover have "chop n ?t1 = [] \<or> hd (chop n ?t1) = hd ?t1"
            by (rule chop_Nil_or_hd)
          moreover from False e have "?t1 = [] \<or> \<not> is_digit (hd ?t1)" by blast
          moreover have "?t1 = [] \<Longrightarrow> chop n ?t1 = []" by (simp only: chop_Nil)
          ultimately show ?thesis by metis
        qed
        then show ?thesis
          unfolding ch match_exp_Cons by (simp only: if_False simp_thms split: if_splits) auto
      qed
    qed
    with x r show ?thesis by simp
  qed
qed

lemma match_number_chop:
  assumes mn: "match_number m s = Some (Inr (v, r))" and n: "n \<le> length r"
  shows "match_number m (chop n s) = Some (Inr (v, chop n r))"
proof -
  from mn obtain i r0 where mi: "match_integer s = Some (i, r0)"
    by (auto simp: match_number_def split: option.splits)
  obtain f r1 where mf: "match_frac r0 = (f, r1)" by (cases "match_frac r0")
  obtain x r2 where mx: "match_exp r1 = (x, r2)" by (cases "match_exp r1")
  from mn mi mf mx have r: "r = r2"
    by (auto simp: match_number_def split: if_splits sum.splits)
  from match_exp_length [OF mx] match_frac_length [OF mf] n r
  have n2: "n \<le> length r2" and n1: "n \<le> length r1" and n0: "n \<le> length r0" by simp_all
  note c = match_integer_chop [OF mi n0] match_frac_chop [OF mf n1] match_exp_chop [OF mx n2]
  show ?thesis
  proof (cases "f \<noteq> [] \<or> x \<noteq> []")
    case True
    with mn mi mf mx have "v = PyFloat (i @ f @ x)" by (auto simp: match_number_def)
    with True c r show ?thesis by (auto simp: match_number_def)
  next
    case False
    with mn mi mf mx obtain k where "parse_int m i = Inr k" and "v = PyInt k"
      by (auto simp: match_number_def split: sum.splits)
    with False c r show ?thesis by (simp add: match_number_def)
  qed
qed

subsection \<open>Where a value ends\<close>

text \<open>
  What a scanner has read ends with a character that \<^verbatim>\<open>str.strip\<close> keeps: the closing
  quote of a string, the last digit of a number, the last letter of a literal, the
  closing bracket of an array or the closing brace of an object.
\<close>

lemma ends_Cons: "\<exists>p c. s = p @ c # r \<and> P c \<Longrightarrow> \<exists>p c. x # s = p @ c # r \<and> P c"
  by (metis append_Cons)

lemma ends_drop: "\<exists>p c. drop k s = p @ c # r \<and> P c \<Longrightarrow> \<exists>p c. s = p @ c # r \<and> P c"
  by (metis append_take_drop_id append_assoc)

lemma ends_skip_ws: "\<exists>p c. skip_ws s = p @ c # r \<and> P c \<Longrightarrow> \<exists>p c. s = p @ c # r \<and> P c"
  unfolding skip_ws_def by (metis takeWhile_dropWhile_id append_assoc)

lemma ends_trans:
  "\<exists>p c. s = p @ c # r1 \<and> Q c \<Longrightarrow> \<exists>p c. r1 = p @ c # r \<and> P c \<Longrightarrow> \<exists>p c. s = p @ c # r \<and> P c"
  by (metis append_Cons append_assoc)

lemma ends_here: "P c \<Longrightarrow> \<exists>p d. c # r = p @ d # r \<and> P d"
  by (metis append_Nil)

lemma ends_skip_ws_Cons: "skip_ws s = d # r \<Longrightarrow> P d \<Longrightarrow> \<exists>p c. s = p @ c # r \<and> P c"
  by (rule ends_skip_ws) (simp add: ends_here)

lemma scanstring_rec:
  assumes "scanstring (c # cs) = Inr (v, r)" and "c \<noteq> 34"
  shows "\<exists>v'. scanstring cs = Inr (v', r) \<or> scanstring (drop 1 cs) = Inr (v', r)
           \<or> scanstring (drop 5 cs) = Inr (v', r) \<or> scanstring (drop 11 cs) = Inr (v', r)"
proof (cases "c = 92")
  case False
  with assms show ?thesis by (auto simp: append_char_Inr_iff split: if_splits)
next
  case True
  with assms obtain e es where cs: "cs = e # es" by (cases cs) auto
  show ?thesis
  proof (cases "e = 117")
    case False
    with True assms cs have "\<exists>v'. scanstring es = Inr (v', r)"
      by (auto simp: append_char_Inr_iff split: option.splits)
    then show ?thesis by (auto simp: cs)
  next
    case e: True
    with True assms cs
    have "\<exists>v'. scanstring (drop 4 es) = Inr (v', r) \<or> scanstring (drop 10 es) = Inr (v', r)"
      by (auto simp: append_char_Inr_iff split: if_splits option.splits)
    then show ?thesis by (auto simp: cs)
  qed
qed

lemma scanstring_ends: "scanstring s = Inr (v, r) \<Longrightarrow> \<exists>p c. s = p @ c # r \<and> c = 34"
proof (induction "length s" arbitrary: s v rule: less_induct)
  case less
  from less.prems obtain c cs where s: "s = c # cs" by (cases s) auto
  show ?case
  proof (cases "c = 34")
    case True
    with less.prems s show ?thesis by (simp add: ends_here)
  next
    case False
    from scanstring_rec [OF less.prems [unfolded s] False]
    obtain v' where "scanstring (drop 0 cs) = Inr (v', r) \<or> scanstring (drop 1 cs) = Inr (v', r)
        \<or> scanstring (drop 5 cs) = Inr (v', r) \<or> scanstring (drop 11 cs) = Inr (v', r)"
      by auto
    then obtain k where "scanstring (drop k cs) = Inr (v', r)" by blast
    from less.hyps [OF _ this] have "\<exists>p c. drop k cs = p @ c # r \<and> c = 34"
      by (simp add: s less_Suc_eq_le)
    then have "\<exists>p c. cs = p @ c # r \<and> c = 34" by (rule ends_drop)
    then show ?thesis unfolding s by (rule ends_Cons)
  qed
qed

lemma digits_end:
  assumes "is_digit d"
  shows "\<exists>p c. d # ds = p @ c # dropWhile is_digit ds \<and> is_digit c"
proof (cases "takeWhile is_digit ds = []")
  case True
  then have "dropWhile is_digit ds = ds" by (metis takeWhile_dropWhile_id append_Nil)
  with assms show ?thesis by (simp add: ends_here)
next
  case False
  let ?t = "takeWhile is_digit ds"
  from False have "last ?t \<in> set ?t" by simp
  then have "is_digit (last ?t)" by (rule set_takeWhileD [THEN conjunct2])
  moreover have "d # ds = (d # butlast ?t) @ last ?t # dropWhile is_digit ds"
    using False by (metis append_Cons append_butlast_last_id append_assoc append_Nil
        takeWhile_dropWhile_id)
  ultimately show ?thesis by blast
qed

lemma match_digits_ends:
  assumes "match_digits s = Some (i, r)"
  shows "\<exists>p c. s = p @ c # r \<and> is_digit c"
proof (cases s)
  case Nil
  with assms show ?thesis by simp
next
  case (Cons d ds)
  show ?thesis
  proof (cases "d = 48")
    case True
    then have "is_digit d" by (simp add: is_digit_def)
    with True Cons assms show ?thesis by (auto simp: ends_here)
  next
    case False
    with Cons assms digits_end [of d ds] show ?thesis by (auto split: if_splits)
  qed
qed

lemma match_integer_ends:
  assumes "match_integer s = Some (i, r)"
  shows "\<exists>p c. s = p @ c # r \<and> is_digit c"
proof -
  from assms obtain c cs where s: "s = c # cs" by (cases s) auto
  show ?thesis
  proof (cases "c = 45")
    case True
    with assms s obtain i' where "match_digits cs = Some (i', r)"
      by (auto split: option.splits)
    from match_digits_ends [OF this] show ?thesis unfolding s by (rule ends_Cons)
  next
    case False
    with assms s have "match_digits s = Some (i, r)" by simp
    then show ?thesis by (rule match_digits_ends)
  qed
qed

lemma match_frac_ends:
  assumes "match_frac s = (f, r)"
  shows "r = s \<or> (\<exists>p c. s = p @ c # r \<and> is_digit c)"
proof (cases "r = s")
  case False
  with assms obtain d g gs where s: "s = d # g # gs" and g: "is_digit g"
    and r: "r = dropWhile is_digit gs"
    by (auto simp: match_frac_def split: list.splits if_splits)
  from digits_end [OF g, of gs] have "\<exists>p c. g # gs = p @ c # r \<and> is_digit c"
    unfolding r .
  then have "\<exists>p c. d # g # gs = p @ c # r \<and> is_digit c" by (rule ends_Cons)
  then show ?thesis unfolding s by (rule disjI2)
qed simp

lemma match_exp_ends:
  assumes "match_exp s = (f, r)"
  shows "r = s \<or> (\<exists>p c. s = p @ c # r \<and> is_digit c)"
proof (cases "r = s")
  case False
  with assms obtain e es where s: "s = e # es" by (cases s) (auto simp: match_exp_def)
  define k where "k = length (if startswith es [45] \<or> startswith es [43] then take 1 es else [])"
  note m = assms [unfolded s match_exp_Cons, folded k_def]
  from m False s have ee: "e = 101 \<or> e = 69"
    by (auto split: if_splits)
  from m [unfolded if_P [OF ee]] False s
  have "drop k es \<noteq> [] \<and> is_digit (hd (drop k es))"
    by (auto split: if_splits)
  with m [unfolded if_P [OF ee]]
  have ne: "drop k es \<noteq> []" and dg: "is_digit (hd (drop k es))"
    and r: "r = dropWhile is_digit (drop k es)"
    by simp_all
  from ne obtain d ds where d: "drop k es = d # ds" by (cases "drop k es") auto
  with dg r have "\<exists>p c. drop k es = p @ c # r \<and> is_digit c"
    by (auto simp: ends_here intro: digits_end)
  then have "\<exists>p c. es = p @ c # r \<and> is_digit c" by (rule ends_drop)
  then have "\<exists>p c. e # es = p @ c # r \<and> is_digit c" by (rule ends_Cons)
  then show ?thesis unfolding s by (rule disjI2)
qed simp

lemma match_number_ends:
  assumes "match_number m s = Some (Inr (v, r))"
  shows "\<exists>p c. s = p @ c # r \<and> is_digit c"
proof -
  from assms obtain i r0 where mi: "match_integer s = Some (i, r0)"
    by (auto simp: match_number_def split: option.splits)
  obtain f r1 where mf: "match_frac r0 = (f, r1)" by (cases "match_frac r0")
  obtain e r2 where me: "match_exp r1 = (e, r2)" by (cases "match_exp r1")
  from assms mi mf me have r: "r = r2"
    by (auto simp: match_number_def split: if_splits sum.splits)
  note a = match_integer_ends [OF mi]
  from match_frac_ends [OF mf] have b: "\<exists>p c. s = p @ c # r1 \<and> is_digit c"
  proof
    assume "r1 = r0"
    with a show ?thesis by simp
  next
    assume "\<exists>p c. r0 = p @ c # r1 \<and> is_digit c"
    with a show ?thesis by (rule ends_trans)
  qed
  from match_exp_ends [OF me] show ?thesis unfolding r
  proof
    assume "r2 = r1"
    with b show "\<exists>p c. s = p @ c # r2 \<and> is_digit c" by simp
  next
    assume "\<exists>p c. r1 = p @ c # r2 \<and> is_digit c"
    with b show "\<exists>p c. s = p @ c # r2 \<and> is_digit c" by (rule ends_trans)
  qed
qed

lemma ends_weaken:
  "\<exists>p c. s = p @ c # r \<and> P c \<Longrightarrow> (\<And>c. P c \<Longrightarrow> Q c) \<Longrightarrow> \<exists>p c. s = p @ c # r \<and> Q c"
  by blast

lemma literal_ends:
  assumes "take (Suc k) (c # cs) = lit" and "lit \<noteq> []" and "\<not> isspace (last lit)"
  shows "\<exists>q e. c # cs = q @ e # drop k cs \<and> \<not> isspace e"
proof -
  have "c # cs = take (Suc k) (c # cs) @ drop (Suc k) (c # cs)"
    by (simp only: append_take_drop_id)
  also have "\<dots> = (butlast lit @ [last lit]) @ drop k cs"
    using assms(1,2) by simp
  finally have "c # cs = butlast lit @ last lit # drop k cs" by simp
  with assms(3) show ?thesis by blast
qed

lemma not_isspace_digit: "is_digit c \<Longrightarrow> \<not> isspace c"
  by (simp add: is_digit_def isspace_def)

lemma scan_ends:
  "scan_once m h s = Inr (v, r) \<Longrightarrow> \<exists>p c. s = p @ c # r \<and> \<not> isspace c"
  "array_loop m1 h1 s1 vs = Inr (v1, r1) \<Longrightarrow> \<exists>p c. s1 = p @ c # r1 \<and> \<not> isspace c"
  "object_loop m2 h2 s2 ps = Inr (v2, r2) \<Longrightarrow> \<exists>p c. s2 = p @ c # r2 \<and> \<not> isspace c"
proof (induction m h s and m1 h1 s1 vs and m2 h2 s2 ps arbitrary: v r and v1 r1 and v2 r2
    rule: scan_once_array_loop_object_loop.induct)
  case (1 m h)
  then show ?case by simp
next
  case (2 m h c cs)
  have eq: "scan_once m h (c # cs) = Inr (v, r)" by fact
  note unf = scan_once.simps(2) [of m h c cs]
  have n34: "\<not> isspace 34" and n93: "\<not> isspace 93" and n125: "\<not> isspace 125"
    by (simp_all add: isspace_def)
  consider (str) "c = 34" | (obj) "c \<noteq> 34" "c = 123" | (arr) "c \<noteq> 34" "c \<noteq> 123" "c = 91"
    | (other) "c \<noteq> 34" "c \<noteq> 123" "c \<noteq> 91" by blast
  then show ?case
  proof cases
    case str
    with eq unf obtain v' where ss: "scanstring cs = Inr (v', r)"
      by (auto split: sum.splits)
    from scanstring_ends [OF ss] have "\<exists>p c. cs = p @ c # r \<and> \<not> isspace c"
      by (rule ends_weaken) (simp add: n34)
    then show ?thesis by (rule ends_Cons)
  next
    case obj
    with eq unf have h0: "h \<noteq> 0" by (auto split: if_splits)
    with obj eq unf obtain d r' where sk: "skip_ws cs = d # r'"
      by (auto split: list.splits)
    have "\<exists>p c. cs = p @ c # r \<and> \<not> isspace c"
    proof (cases "d = 125")
      case True
      with obj h0 sk eq unf have r: "r = r'" by auto
      from sk n125 True show ?thesis unfolding r by (intro ends_skip_ws_Cons) simp_all
    next
      case False
      with obj h0 sk eq unf have d: "d = 34" and ol: "object_loop m (h - 1) r' [] = Inr (v, r)"
        by (auto split: if_splits)
      from "2.IH"(1) [OF obj h0 sk False d ol]
      have "\<exists>p c. d # r' = p @ c # r \<and> \<not> isspace c" by (rule ends_Cons)
      then show ?thesis unfolding sk [symmetric] by (rule ends_skip_ws)
    qed
    then show ?thesis by (rule ends_Cons)
  next
    case arr
    with eq unf have h0: "h \<noteq> 0" by (auto split: if_splits)
    with arr eq unf obtain d r' where sk: "skip_ws cs = d # r'"
      by (auto split: list.splits)
    have "\<exists>p c. cs = p @ c # r \<and> \<not> isspace c"
    proof (cases "d = 93")
      case True
      with arr h0 sk eq unf have r: "r = r'" by auto
      from sk n93 True show ?thesis unfolding r by (intro ends_skip_ws_Cons) simp_all
    next
      case False
      with arr h0 sk eq unf have al: "array_loop m (h - 1) (d # r') [] = Inr (v, r)"
        by (auto split: if_splits)
      from "2.IH"(2) [OF arr h0 sk False al]
      show ?thesis unfolding sk [symmetric] by (rule ends_skip_ws)
    qed
    then show ?thesis by (rule ends_Cons)
  next
    case other
    note unf0 = unf [unfolded if_not_P [OF other(1)] if_not_P [OF other(2)] if_not_P [OF other(3)]]
    note eq0 = eq [unfolded unf0]
    let ?N = "c = 110 \<and> take 4 (c # cs) = py ''null''"
    let ?T = "c = 116 \<and> take 4 (c # cs) = py ''true''"
    let ?F = "c = 102 \<and> take 5 (c # cs) = py ''false''"
    consider (null) ?N | (true) "\<not> ?N" ?T | (false) "\<not> ?N" "\<not> ?T" ?F
      | (num) "\<not> ?N" "\<not> ?T" "\<not> ?F" by blast
    then show ?thesis
    proof cases
      case null
      with eq0 have r: "r = drop 3 cs" by simp
      from null have "take (Suc 3) (c # cs) = py ''null''" by simp
      then show ?thesis unfolding r by (rule literal_ends) (simp_all add: isspace_def)
    next
      case true
      with eq0 have r: "r = drop 3 cs" by simp
      from true have "take (Suc 3) (c # cs) = py ''true''" by simp
      then show ?thesis unfolding r by (rule literal_ends) (simp_all add: isspace_def)
    next
      case false
      with eq0 have r: "r = drop 4 cs" by simp
      from false have "take (Suc 4) (c # cs) = py ''false''" by simp
      then show ?thesis unfolding r by (rule literal_ends) (simp_all add: isspace_def)
    next
      case num
      note eq2 = eq0 [unfolded if_not_P [OF num(1)] if_not_P [OF num(2)] if_not_P [OF num(3)]]
      show ?thesis
      proof (cases "match_number m (c # cs)")
        case (Some a)
        with eq2 have a: "a = Inr (v, r)" by simp
        from match_number_ends [OF Some [unfolded a]] show ?thesis
          by (rule ends_weaken) (rule not_isspace_digit)
      next
        case None
        note eq3 = eq2 [unfolded None option.case]
        let ?A = "c = 78 \<and> take 3 (c # cs) = py ''NaN''"
        let ?I = "c = 73 \<and> take 8 (c # cs) = py ''Infinity''"
        let ?M = "c = 45 \<and> take 9 (c # cs) = py ''-Infinity''"
        consider (nan) ?A | (inf) "\<not> ?A" ?I | (minf) "\<not> ?A" "\<not> ?I" ?M
          | (none) "\<not> ?A" "\<not> ?I" "\<not> ?M" by blast
        then show ?thesis
        proof cases
          case nan
          with eq3 have r: "r = drop 2 cs" by simp
          from nan have "take (Suc 2) (c # cs) = py ''NaN''" by simp
          then show ?thesis unfolding r by (rule literal_ends) (simp_all add: isspace_def)
        next
          case inf
          with eq3 have r: "r = drop 7 cs" by simp
          from inf have "take (Suc 7) (c # cs) = py ''Infinity''" by simp
          then show ?thesis unfolding r by (rule literal_ends) (simp_all add: isspace_def)
        next
          case minf
          with eq3 have r: "r = drop 8 cs" by simp
          from minf have "take (Suc 8) (c # cs) = py ''-Infinity''" by simp
          then show ?thesis unfolding r by (rule literal_ends) (simp_all add: isspace_def)
        next
          case none
          from eq3 [unfolded if_not_P [OF none(1)] if_not_P [OF none(2)] if_not_P [OF none(3)]]
          show ?thesis by simp
        qed
      qed
    qed
  qed
next
  case (3 m h s vals)
  note unf = array_loop.simps [of m h s vals]
  from "3.prems" unf obtain v' r' where so: "scan_once m h s = Inr (v', r')"
    by (auto split: sum.splits)
  note e1 = "3.IH"(1) [OF so]
  from "3.prems" unf so obtain d r'' where sk: "skip_ws r' = d # r''"
    by (auto split: list.splits)
  show ?case
  proof (cases "d = 93")
    case True
    with "3.prems" unf so sk have r: "r1 = r''" by auto
    from True have "\<not> isspace d" by (simp add: isspace_def)
    from e1 ends_skip_ws_Cons [OF sk, of "\<lambda>c. \<not> isspace c", OF this]
    show ?thesis unfolding r by (rule ends_trans)
  next
    case False
    with "3.prems" unf so sk have d: "\<not> d \<noteq> 44"
      and al: "array_loop m h (skip_ws r'') (vals @ [v']) = Inr (v1, r1)"
      by (auto split: if_splits)
    from "3.IH"(2) [OF so refl sk False d al]
    have "\<exists>p c. r'' = p @ c # r1 \<and> \<not> isspace c" by (rule ends_skip_ws)
    then have "\<exists>p c. d # r'' = p @ c # r1 \<and> \<not> isspace c" by (rule ends_Cons)
    then have "\<exists>p c. r' = p @ c # r1 \<and> \<not> isspace c"
      unfolding sk [symmetric] by (rule ends_skip_ws)
    with e1 show ?thesis by (rule ends_trans)
  qed
next
  case (4 m h s pairs)
  note unf = object_loop.simps [of m h s pairs]
  from "4.prems" unf obtain key r' where ss: "scanstring s = Inr (key, r')"
    by (auto split: sum.splits)
  note e1 = scanstring_ends [OF ss]
  from "4.prems" unf ss obtain d r'' where sk: "skip_ws r' = d # r''"
    by (auto split: list.splits)
  from "4.prems" unf ss sk have d: "\<not> d \<noteq> 58"
    by (auto split: if_splits)
  from "4.prems" unf ss sk d obtain v' r3 where so: "scan_once m h (skip_ws r'') = Inr (v', r3)"
    by (auto split: sum.splits)
  from "4.IH"(1) [OF ss refl sk d so]
  have "\<exists>p c. r'' = p @ c # r3 \<and> \<not> isspace c" by (rule ends_skip_ws)
  then have "\<exists>p c. d # r'' = p @ c # r3 \<and> \<not> isspace c" by (rule ends_Cons)
  then have "\<exists>p c. r' = p @ c # r3 \<and> \<not> isspace c"
    unfolding sk [symmetric] by (rule ends_skip_ws)
  with e1 have e3: "\<exists>p c. s = p @ c # r3 \<and> \<not> isspace c" by (rule ends_trans)
  from "4.prems" unf ss sk d so obtain d2 r4 where sk2: "skip_ws r3 = d2 # r4"
    by (auto split: list.splits)
  show ?case
  proof (cases "d2 = 125")
    case True
    with "4.prems" unf ss sk d so sk2 have r: "r2 = r4" by auto
    from True have "\<not> isspace d2" by (simp add: isspace_def)
    from e3 ends_skip_ws_Cons [OF sk2, of "\<lambda>c. \<not> isspace c", OF this]
    show ?thesis unfolding r by (rule ends_trans)
  next
    case False
    with "4.prems" unf ss sk d so sk2 have d2: "\<not> d2 \<noteq> 44"
      by (auto split: if_splits)
    from "4.prems" unf ss sk d so sk2 False d2 obtain d3 r5 where sk3: "skip_ws r4 = d3 # r5"
      by (auto split: list.splits)
    from "4.prems" unf ss sk d so sk2 False d2 sk3 have d3: "d3 = 34"
      and ol: "object_loop m h r5 (pairs @ [(key, v')]) = Inr (v2, r2)"
      by (auto split: if_splits)
    from "4.IH"(2) [OF ss refl sk d so refl sk2 False d2 sk3 d3 ol]
    have "\<exists>p c. d3 # r5 = p @ c # r2 \<and> \<not> isspace c" by (rule ends_Cons)
    then have "\<exists>p c. r4 = p @ c # r2 \<and> \<not> isspace c"
      unfolding sk3 [symmetric] by (rule ends_skip_ws)
    then have "\<exists>p c. d2 # r4 = p @ c # r2 \<and> \<not> isspace c" by (rule ends_Cons)
    then have "\<exists>p c. r3 = p @ c # r2 \<and> \<not> isspace c"
      unfolding sk2 [symmetric] by (rule ends_skip_ws)
    with e3 show ?thesis by (rule ends_trans)
  qed
qed

lemma scan_length:
  "scan_once m h s = Inr (v, r) \<Longrightarrow> length r < length s"
  "array_loop m1 h1 s1 vs = Inr (v1, r1) \<Longrightarrow> length r1 < length s1"
  "object_loop m2 h2 s2 ps = Inr (v2, r2) \<Longrightarrow> length r2 < length s2"
  by (auto dest!: scan_ends)

subsection \<open>Cutting the text after a value\<close>

text \<open>The same for \<^verbatim>\<open>scan_once\<close> and the two loops, by induction on their calls.\<close>

lemma skip_ws_chop_Cons:
  assumes "skip_ws xs = d # r" and "n \<le> length r"
  shows "skip_ws (chop n xs) = d # chop n r"
proof -
  from assms have "n \<le> length (skip_ws xs)" by simp
  from skip_ws_chop [OF this] assms show ?thesis by (simp add: chop_Cons)
qed

lemma literal_chop:
  assumes "take k (c # cs) = p" and "length p = k" and "n \<le> length (drop (k - 1) cs)" and "0 < k"
  shows "take k (c # chop n cs) = p"
proof -
  from assms(1,2) have "k \<le> Suc (length cs)" by auto
  with assms(3,4) have "(k - 1) + n \<le> length cs" by simp
  from chop_take [OF this] assms(1,4) show ?thesis by (cases k) simp_all
qed

lemma take_chop_eq:
  assumes "take k (chop n xs) = p" and "length p = k"
  shows "take k xs = p"
proof -
  from assms have "length (take k (chop n xs)) = k" by simp
  then have "k \<le> length xs - n" by (simp add: min_def split: if_splits)
  then have "take k (chop n xs) = take k xs" by (simp add: chop_def min_def)
  with assms show ?thesis by simp
qed

lemma scan_chop:
  "scan_once m h s = Inr (v, r) \<Longrightarrow> n \<le> length r \<Longrightarrow>
     scan_once m h (chop n s) = Inr (v, chop n r)"
  "array_loop m1 h1 s1 vs = Inr (v1, r1) \<Longrightarrow> n1 \<le> length r1 \<Longrightarrow>
     array_loop m1 h1 (chop n1 s1) vs = Inr (v1, chop n1 r1)"
  "object_loop m2 h2 s2 ps = Inr (v2, r2) \<Longrightarrow> n2 \<le> length r2 \<Longrightarrow>
     object_loop m2 h2 (chop n2 s2) ps = Inr (v2, chop n2 r2)"
proof (induction m h s and m1 h1 s1 vs and m2 h2 s2 ps arbitrary: v r n and v1 r1 n1 and v2 r2 n2
    rule: scan_once_array_loop_object_loop.induct)
  case (1 m h)
  then show ?case by simp
next
  case (2 m h c cs)
  have eq: "scan_once m h (c # cs) = Inr (v, r)" and n: "n \<le> length r" by fact+
  from scan_length(1) [OF eq] n have ncs: "n \<le> length cs" by simp
  note ch = chop_Cons [OF ncs, of c]
  note unf = scan_once.simps(2) [of m h c cs]
  note unf' = scan_once.simps(2) [of m h c "chop n cs"]
  consider (str) "c = 34" | (obj) "c \<noteq> 34" "c = 123" | (arr) "c \<noteq> 34" "c \<noteq> 123" "c = 91"
    | (other) "c \<noteq> 34" "c \<noteq> 123" "c \<noteq> 91" by blast
  then show ?case
  proof cases
    case str
    with eq unf obtain v' where ss: "scanstring cs = Inr (v', r)" and v: "v = PyStr v'"
      by (auto split: sum.splits)
    from scanstring_chop [OF ss n] str v show ?thesis unfolding ch unf' by simp
  next
    case obj
    with eq unf have h0: "h \<noteq> 0" by (auto split: if_splits)
    with obj eq unf obtain d r' where sk: "skip_ws cs = d # r'"
      by (auto split: list.splits)
    show ?thesis
    proof (cases "d = 125")
      case True
      with obj h0 sk eq unf have r: "r = r'" and v: "v = PyDict []" by auto
      from skip_ws_chop_Cons [OF sk] n r have "skip_ws (chop n cs) = d # chop n r" by simp
      with obj h0 True v show ?thesis unfolding ch unf' by simp
    next
      case False
      with obj h0 sk eq unf have d: "d = 34" and ol: "object_loop m (h - 1) r' [] = Inr (v, r)"
        by (auto split: if_splits)
      from scan_length(3) [OF ol] n have "n \<le> length r'" by simp
      from skip_ws_chop_Cons [OF sk this] have sk': "skip_ws (chop n cs) = d # chop n r'" .
      from "2.IH"(1) [OF obj h0 sk False d ol n] obj h0 False d sk'
      show ?thesis unfolding ch unf' by simp
    qed
  next
    case arr
    with eq unf have h0: "h \<noteq> 0" by (auto split: if_splits)
    with arr eq unf obtain d r' where sk: "skip_ws cs = d # r'"
      by (auto split: list.splits)
    show ?thesis
    proof (cases "d = 93")
      case True
      with arr h0 sk eq unf have r: "r = r'" and v: "v = PyList []" by auto
      from skip_ws_chop_Cons [OF sk] n r have "skip_ws (chop n cs) = d # chop n r" by simp
      with arr h0 True v show ?thesis unfolding ch unf' by simp
    next
      case False
      with arr h0 sk eq unf have al: "array_loop m (h - 1) (d # r') [] = Inr (v, r)"
        by (auto split: if_splits)
      from scan_length(2) [OF al] n have nr': "n \<le> length r'" by simp
      from skip_ws_chop_Cons [OF sk this] have sk': "skip_ws (chop n cs) = d # chop n r'" .
      from "2.IH"(2) [OF arr h0 sk False al n] arr h0 False sk' nr'
      show ?thesis unfolding ch unf' by (simp add: chop_Cons)
    qed
  next
    case other
    note unf0 = unf [unfolded if_not_P [OF other(1)] if_not_P [OF other(2)] if_not_P [OF other(3)]]
    note unf1 = unf' [unfolded if_not_P [OF other(1)] if_not_P [OF other(2)] if_not_P [OF other(3)]]
    let ?N = "c = 110 \<and> take 4 (c # cs) = py ''null''"
    let ?T = "c = 116 \<and> take 4 (c # cs) = py ''true''"
    let ?F = "c = 102 \<and> take 5 (c # cs) = py ''false''"
    consider (null) ?N | (true) "\<not> ?N" ?T | (false) "\<not> ?N" "\<not> ?T" ?F
      | (num) "\<not> ?N" "\<not> ?T" "\<not> ?F" by blast
    then show ?thesis
    proof cases
      case null
      with eq unf0 have v: "v = PyNone" and r: "r = drop 3 cs" by simp_all
      from null have "take 4 (c # chop n cs) = py ''null''"
        by (intro literal_chop [where k = 4]) (use n r in simp_all)
      with null v r show ?thesis unfolding ch unf1 by (simp add: chop_drop)
    next
      case true
      with eq unf0 have v: "v = PyBool True" and r: "r = drop 3 cs" by simp_all
      from true have "take 4 (c # chop n cs) = py ''true''"
        by (intro literal_chop [where k = 4]) (use n r in simp_all)
      with true v r show ?thesis unfolding ch unf1 by (simp add: chop_drop)
    next
      case false
      with eq unf0 have v: "v = PyBool False" and r: "r = drop 4 cs" by simp_all
      from false have "take 5 (c # chop n cs) = py ''false''"
        by (intro literal_chop [where k = 5]) (use n r in simp_all)
      with false v r show ?thesis unfolding ch unf1 by (simp add: chop_drop)
    next
      case num
      have lit: "\<not> (c = 110 \<and> take 4 (c # chop n cs) = py ''null'')"
        "\<not> (c = 116 \<and> take 4 (c # chop n cs) = py ''true'')"
        "\<not> (c = 102 \<and> take 5 (c # chop n cs) = py ''false'')"
      proof -
        show "\<not> (c = 110 \<and> take 4 (c # chop n cs) = py ''null'')"
        proof
          assume a: "c = 110 \<and> take 4 (c # chop n cs) = py ''null''"
          then have "take 3 (chop n cs) = [117, 108, 108]" by simp
          from take_chop_eq [OF this] a num(1) show False by simp
        qed
        show "\<not> (c = 116 \<and> take 4 (c # chop n cs) = py ''true'')"
        proof
          assume a: "c = 116 \<and> take 4 (c # chop n cs) = py ''true''"
          then have "take 3 (chop n cs) = [114, 117, 101]" by simp
          from take_chop_eq [OF this] a num(2) show False by simp
        qed
        show "\<not> (c = 102 \<and> take 5 (c # chop n cs) = py ''false'')"
        proof
          assume a: "c = 102 \<and> take 5 (c # chop n cs) = py ''false''"
          then have "take 4 (chop n cs) = [97, 108, 115, 101]" by simp
          from take_chop_eq [OF this] a num(3) show False by simp
        qed
      qed
      note unf2 = unf0 [unfolded if_not_P [OF num(1)] if_not_P [OF num(2)] if_not_P [OF num(3)]]
      note eq2 = eq [unfolded unf2]
      note unf3 = unf1 [unfolded if_not_P [OF lit(1)] if_not_P [OF lit(2)] if_not_P [OF lit(3)]]
      show ?thesis
      proof (cases "match_number m (c # cs)")
        case (Some a)
        with eq2 have a: "a = Inr (v, r)" by simp
        from match_number_chop [OF Some [unfolded a] n]
        have "match_number m (c # chop n cs) = Some (Inr (v, chop n r))" unfolding ch .
        then show ?thesis unfolding ch unf3 by simp
      next
        case None
        note eq3 = eq2 [unfolded None option.case]
        let ?A = "c = 78 \<and> take 3 (c # cs) = py ''NaN''"
        let ?I = "c = 73 \<and> take 8 (c # cs) = py ''Infinity''"
        let ?M = "c = 45 \<and> take 9 (c # cs) = py ''-Infinity''"
        consider (nan) ?A | (inf) "\<not> ?A" ?I | (minf) "\<not> ?A" "\<not> ?I" ?M
          | (none) "\<not> ?A" "\<not> ?I" "\<not> ?M" by blast
        then show ?thesis
        proof cases
          case nan
          with eq3 have v: "v = PyFloat (py ''NaN'')" and r: "r = drop 2 cs" by simp_all
          from nan have t: "take 3 (c # chop n cs) = py ''NaN''"
            by (intro literal_chop [where k = 3]) (use n r in simp_all)
          from nan have mn: "match_number m (c # chop n cs) = None"
            by (simp add: match_number_def is_digit_def)
          show ?thesis unfolding ch unf3 mn option.case using nan t v r
            by (simp add: chop_drop)
        next
          case inf
          with eq3 have v: "v = PyFloat (py ''Infinity'')" and r: "r = drop 7 cs" by simp_all
          from inf have t: "take 8 (c # chop n cs) = py ''Infinity''"
            by (intro literal_chop [where k = 8]) (use n r in simp_all)
          from inf have mn: "match_number m (c # chop n cs) = None"
            by (simp add: match_number_def is_digit_def)
          show ?thesis unfolding ch unf3 mn option.case using inf t v r
            by (simp add: chop_drop)
        next
          case minf
          with eq3 have v: "v = PyFloat (py ''-Infinity'')" and r: "r = drop 8 cs" by simp_all
          from minf have t: "take 9 (c # chop n cs) = py ''-Infinity''"
            by (intro literal_chop [where k = 9]) (use n r in simp_all)
          then obtain xs where "chop n cs = 73 # xs"
            by (cases "chop n cs") simp_all
          with minf have mn: "match_number m (c # chop n cs) = None"
            by (simp add: match_number_def is_digit_def)
          show ?thesis unfolding ch unf3 mn option.case using minf t v r
            by (simp add: chop_drop)
        next
          case none
          from eq3 [unfolded if_not_P [OF none(1)] if_not_P [OF none(2)] if_not_P [OF none(3)]]
          show ?thesis by simp
        qed
      qed
    qed
  qed
next
  case (3 m h s vals)
  note unf = array_loop.simps [of m h s vals]
  from "3.prems" unf obtain v' r' where so: "scan_once m h s = Inr (v', r')"
    by (auto split: sum.splits)
  from "3.prems" unf so obtain d r'' where sk: "skip_ws r' = d # r''"
    by (auto split: list.splits)
  have l2: "length r'' < length r'" by (rule skip_ws_Cons_length [OF sk])
  show ?case
  proof (cases "d = 93")
    case True
    with "3.prems" unf so sk have r: "r1 = r''" and v: "v1 = PyList (vals @ [v'])" by auto
    from r "3.prems"(2) l2 have n': "n1 \<le> length r'" and n'': "n1 \<le> length r''" by simp_all
    from "3.IH"(1) [OF so n'] skip_ws_chop_Cons [OF sk n''] True r v
    show ?thesis by (subst array_loop.simps) simp
  next
    case False
    with "3.prems" unf so sk have d: "\<not> d \<noteq> 44"
      and al: "array_loop m h (skip_ws r'') (vals @ [v']) = Inr (v1, r1)"
      by (auto split: if_splits)
    from scan_length(2) [OF al] "3.prems"(2) have n3: "n1 \<le> length (skip_ws r'')" by simp
    with skip_ws_length [of r''] l2 have n'': "n1 \<le> length r''" and n': "n1 \<le> length r'"
      by simp_all
    from "3.IH"(1) [OF so n'] skip_ws_chop_Cons [OF sk n''] skip_ws_chop [OF n3]
      "3.IH"(2) [OF so refl sk False d al "3.prems"(2)] False d
    show ?thesis by (subst array_loop.simps) simp
  qed
next
  case (4 m h s pairs)
  note unf = object_loop.simps [of m h s pairs]
  from "4.prems" unf obtain key r' where ss: "scanstring s = Inr (key, r')"
    by (auto split: sum.splits)
  from "4.prems" unf ss obtain d r'' where sk: "skip_ws r' = d # r''"
    by (auto split: list.splits)
  have l2: "length r'' < length r'" by (rule skip_ws_Cons_length [OF sk])
  from "4.prems" unf ss sk have d: "\<not> d \<noteq> 58"
    by (auto split: if_splits)
  from "4.prems" unf ss sk d obtain v' r3 where so: "scan_once m h (skip_ws r'') = Inr (v', r3)"
    by (auto split: sum.splits)
  from scan_length(1) [OF so] skip_ws_length [of r'']
  have l3: "length r3 < length (skip_ws r'')" "length r3 < length r''" by simp_all
  from "4.prems" unf ss sk d so obtain d2 r4 where sk2: "skip_ws r3 = d2 # r4"
    by (auto split: list.splits)
  have l4: "length r4 < length r3" by (rule skip_ws_Cons_length [OF sk2])
  show ?case
  proof (cases "d2 = 125")
    case True
    with "4.prems" unf ss sk d so sk2 have r: "r2 = r4"
      and v: "v2 = PyDict (dict (pairs @ [(key, v')]))" by auto
    from r "4.prems"(2) l2 l3 l4 have n4: "n2 \<le> length r4" and n3: "n2 \<le> length r3"
      and ns: "n2 \<le> length (skip_ws r'')" and n'': "n2 \<le> length r''" and n': "n2 \<le> length r'"
      by simp_all
    from scanstring_chop [OF ss n'] skip_ws_chop_Cons [OF sk n''] skip_ws_chop [OF ns]
      "4.IH"(1) [OF ss refl sk d so n3] skip_ws_chop_Cons [OF sk2 n4] d True r v
    show ?thesis by (subst object_loop.simps) simp
  next
    case False
    with "4.prems" unf ss sk d so sk2 have d2: "\<not> d2 \<noteq> 44"
      by (auto split: if_splits)
    from "4.prems" unf ss sk d so sk2 False d2 obtain d3 r5 where sk3: "skip_ws r4 = d3 # r5"
      by (auto split: list.splits)
    have l5: "length r5 < length r4" by (rule skip_ws_Cons_length [OF sk3])
    from "4.prems" unf ss sk d so sk2 False d2 sk3 have d3: "d3 = 34"
      and ol: "object_loop m h r5 (pairs @ [(key, v')]) = Inr (v2, r2)"
      by (auto split: if_splits)
    from scan_length(3) [OF ol] "4.prems"(2) l2 l3 l4 l5
    have n5: "n2 \<le> length r5" and n4: "n2 \<le> length r4" and n3: "n2 \<le> length r3"
      and ns: "n2 \<le> length (skip_ws r'')" and n'': "n2 \<le> length r''" and n': "n2 \<le> length r'"
      by simp_all
    from scanstring_chop [OF ss n'] skip_ws_chop_Cons [OF sk n''] skip_ws_chop [OF ns]
      "4.IH"(1) [OF ss refl sk d so n3] skip_ws_chop_Cons [OF sk2 n4]
      skip_ws_chop_Cons [OF sk3 n5]
      "4.IH"(2) [OF ss refl sk d so refl sk2 False d2 sk3 d3 ol "4.prems"(2)]
      d False d2 d3
    show ?thesis by (subst object_loop.simps) simp
  qed
qed

subsection \<open>\<^verbatim>\<open>strip\<close> keeps a JSON document\<close>

text \<open>
  The white space of JSON is white space for \<^verbatim>\<open>str.strip\<close>, and a document neither
  starts nor ends with a character that \<^verbatim>\<open>str.strip\<close> removes: the stripped text decodes
  to the same value, and it does not start with a fence.
\<close>

lemma scan_once_first:
  assumes "scan_once m h (c # cs) = Inr x"
  shows "c \<in> {34, 123, 91, 110, 116, 102, 78, 73, 45} \<or> is_digit c"
proof (rule ccontr)
  assume "\<not> ?thesis"
  then have c: "c \<noteq> 34" "c \<noteq> 123" "c \<noteq> 91" "c \<noteq> 110" "c \<noteq> 116" "c \<noteq> 102" "c \<noteq> 78"
    "c \<noteq> 73" "c \<noteq> 45" "\<not> is_digit c" by simp_all
  then have "c \<noteq> 48" by (auto simp: is_digit_def)
  with c have "match_number m (c # cs) = None" by (simp add: match_number_def)
  with c assms show False by simp
qed

lemma is_json_ws_isspace: "is_json_ws c \<Longrightarrow> isspace c"
  by (auto simp: is_json_ws_def isspace_def)

lemma json_loads_strip:
  assumes "json_loads ip s = Inr v"
  shows "json_loads ip (strip s) = Inr v \<and> strip s \<noteq> [] \<and> hd (strip s) \<noteq> 96"
proof -
  let ?t = "skip_ws s"
  let ?m = "int_max_str_digits ip" and ?h = "recursion_left ip"
  from assms obtain r where so: "scan_once ?m ?h ?t = Inr (v, r)" and ws: "skip_ws r = []"
    by (auto simp: json_loads_def split: if_splits sum.splits)
  from so obtain c cs where t: "?t = c # cs" by (cases ?t) auto
  from scan_once_first [OF so [unfolded t]]
  have c: "\<not> isspace c" "c \<noteq> 96" "c \<noteq> 65279" "\<not> is_json_ws c"
    by (auto simp: isspace_def is_digit_def is_json_ws_def)
  have "s = takeWhile is_json_ws s @ ?t" by (simp add: skip_ws_def)
  then have "lstrip s = dropWhile isspace (takeWhile is_json_ws s @ ?t)"
    by (simp add: lstrip_def)
  also have "\<dots> = dropWhile isspace ?t"
    by (rule dropWhile_append2) (auto dest: set_takeWhileD is_json_ws_isspace)
  also have "\<dots> = ?t" using c(1) by (simp add: t)
  finally have ls: "lstrip s = ?t" .
  from scan_ends(1) [OF so] obtain p e where pe: "?t = p @ e # r" and e: "\<not> isspace e"
    by blast
  from ws have "\<forall>x\<in>set r. is_json_ws x" by (simp add: skip_ws_def dropWhile_eq_Nil_conv)
  then have rs: "\<And>x. x \<in> set (rev r) \<Longrightarrow> isspace x" by (auto dest: is_json_ws_isspace)
  have "dropWhile isspace (rev ?t) = dropWhile isspace (rev r @ e # rev p)"
    by (simp add: pe)
  also have "\<dots> = dropWhile isspace (e # rev p)" using rs by (rule dropWhile_append2)
  also have "\<dots> = e # rev p" using e by simp
  finally have st: "strip s = p @ [e]" by (simp add: strip_def rstrip_def ls)
  have ch: "chop (length r) ?t = p @ [e]" by (simp add: chop_def pe)
  from scan_chop(1) [OF so, of "length r"] have sc: "scan_once ?m ?h (strip s) = Inr (v, [])"
    by (simp add: ch st)
  from pe t have "\<exists>ds. p @ [e] = c # ds" by (cases p) auto
  then obtain ds where cons: "strip s = c # ds" unfolding st by blast
  with c have sk: "skip_ws (strip s) = strip s" and bom: "\<not> startswith (strip s) [65279]"
    by (simp_all add: skip_ws_def startswith_def)
  from sc sk bom have "json_loads ip (strip s) = Inr v" by (simp add: json_loads_def skip_ws_def)
  with cons c show ?thesis by simp
qed

lemma strip_fences_no_fence:
  assumes "strip s \<noteq> []" and "hd (strip s) \<noteq> 96"
  shows "strip_fences s = strip s"
proof -
  from assms obtain c cs where "strip s = c # cs" and "c \<noteq> 96" by (cases "strip s") auto
  then show ?thesis by (simp add: strip_fences_def startswith_def)
qed

lemma parse_response_unwrapped:
  assumes "json_loads (interp w) s = Inr v"
  shows "parse_response (PyStr s) w = (Inr v, w)"
proof -
  from json_loads_strip [OF assms] strip_fences_no_fence [of s]
  have "json_loads (interp w) (strip_fences s) = Inr v" by simp
  then show ?thesis by (simp add: parse_response_def)
qed

subsection \<open>Upserts applied one after the other\<close>

text \<open>
  A list is updated by upserts \<open>up w\<close>, each of which applies \<open>step w\<close> to what is there
  and adds \<open>step w (blank w)\<close> when nothing is the same as \<open>w\<close> afterwards.  When what is
  once anchored at the key of \<open>w\<close> is the same as \<open>w\<close> and stays anchored, and the steps
  of a list of upserts, applied to one element twice, give what they give applied once,
  then the upserts of the list, applied twice, give what they give applied once, and
  leave for each of them an element anchored at its key.
\<close>

lemma upsert_pass:
  fixes up :: "'w \<Rightarrow> 'a list \<Rightarrow> 'a list" and key :: "'w \<Rightarrow> 'k"
  assumes U: "\<And>w xs. up w xs =
      (if list_ex (same w) (map (step w) xs) then map (step w) xs
       else map (step w) xs @ [step w (blank w)])"
    and a: "\<And>w x. anchored (key w) x \<Longrightarrow> same w x"
    and b: "\<And>k w x. anchored k x \<Longrightarrow> anchored k (step w x)"
    and c: "\<And>w x. same w (step w x) \<Longrightarrow> anchored (key w) (step w x)"
    and d: "\<And>w. anchored (key w) (blank w)"
    and e: "\<And>k w x. anchored k x \<Longrightarrow> key w \<noteq> k \<Longrightarrow> step w x = x"
    and f: "\<And>ws x. fold step ws (fold step ws x) = fold step ws x"
  shows "fold up ws (fold up ws xs) = fold up ws xs"
    and "w \<in> set ws \<Longrightarrow> \<exists>y\<in>set (fold up ws xs). anchored (key w) y"
proof -
  have steps: "anchored k (fold step vs x)" if "anchored k x" for k vs x
    using that by (induction vs arbitrary: x) (simp_all add: b)
  have keep1: "\<exists>y\<in>set (up v xs). anchored k y" if "x \<in> set xs" "anchored k x" for k v x xs
  proof -
    from that have "step v x \<in> set (map (step v) xs)" "anchored k (step v x)"
      by (simp_all add: b)
    then show ?thesis unfolding U by auto
  qed
  have keep: "\<exists>y\<in>set (fold up vs xs). anchored k y" if "\<exists>x\<in>set xs. anchored k x" for k vs xs
    using that
  proof (induction vs arbitrary: xs)
    case Nil
    then show ?case by simp
  next
    case (Cons v vs)
    from Cons.prems keep1 have "\<exists>y\<in>set (up v xs). anchored k y" by blast
    from Cons.IH [OF this] show ?case by simp
  qed
  have made: "\<exists>y\<in>set (up v xs). anchored (key v) y" for v xs
  proof (cases "list_ex (same v) (map (step v) xs)")
    case True
    then obtain x where "x \<in> set xs" "same v (step v x)" by (auto simp: list_ex_iff)
    with c [of v x] True show ?thesis unfolding U by auto
  next
    case False
    with b [OF d, of v v] show ?thesis unfolding U by auto
  qed
  have there: "\<exists>y\<in>set (fold up vs xs). anchored (key v) y" if "v \<in> set vs" for v vs xs
    using that
  proof (induction vs arbitrary: xs)
    case Nil
    then show ?case by simp
  next
    case (Cons u vs)
    show ?case
    proof (cases "v = u")
      case True
      from keep [OF made [of u xs], of vs] True show ?thesis by simp
    next
      case False
      with Cons.prems have "v \<in> set vs" by simp
      from Cons.IH [OF this] show ?thesis by simp
    qed
  qed
  have updates: "fold up vs xs = map (fold step vs) xs"
    if "\<forall>v\<in>set vs. \<exists>x\<in>set xs. anchored (key v) x" for vs xs
    using that
  proof (induction vs arbitrary: xs)
    case Nil
    then show ?case by simp
  next
    case (Cons v vs)
    from Cons.prems obtain x where x: "x \<in> set xs" "anchored (key v) x" by auto
    from a [OF b [OF x(2), of v]] x(1) have "list_ex (same v) (map (step v) xs)"
      by (auto simp: list_ex_iff)
    then have u: "up v xs = map (step v) xs" unfolding U by simp
    have "\<forall>w\<in>set vs. \<exists>y\<in>set (map (step v) xs). anchored (key w) y"
    proof
      fix w assume "w \<in> set vs"
      with Cons.prems obtain z where "z \<in> set xs" "anchored (key w) z" by auto
      with b [of "key w" z v] show "\<exists>y\<in>set (map (step v) xs). anchored (key w) y" by auto
    qed
    from Cons.IH [OF this] show ?case by (simp add: u comp_def)
  qed
  have origin: "(\<exists>x\<in>set xs. y = fold step vs x) \<or>
      (\<exists>vs1 v vs2. vs = vs1 @ v # vs2 \<and> y = fold step vs2 (step v (blank v)) \<and>
         \<not> list_ex (same v) (map (step v) (fold up vs1 xs)))"
    if "y \<in> set (fold up vs xs)" for y vs xs
    using that
  proof (induction vs arbitrary: xs)
    case Nil
    then show ?case by simp
  next
    case (Cons u vs)
    from Cons.prems have "y \<in> set (fold up vs (up u xs))" by simp
    from Cons.IH [OF this] show ?case
    proof (elim disjE bexE exE conjE)
      fix x assume x: "x \<in> set (up u xs)" and y: "y = fold step vs x"
      show ?thesis
      proof (cases "x \<in> set (map (step u) xs)")
        case True
        with y show ?thesis by auto
      next
        case False
        with x have "x = step u (blank u)" and "\<not> list_ex (same u) (map (step u) xs)"
          unfolding U by (auto split: if_splits)
        with y have "u # vs = [] @ u # vs \<and> y = fold step vs (step u (blank u)) \<and>
            \<not> list_ex (same u) (map (step u) (fold up [] xs))" by simp
        then show ?thesis by blast
      qed
    next
      fix vs1 v vs2
      assume "vs = vs1 @ v # vs2" "y = fold step vs2 (step v (blank v))"
        "\<not> list_ex (same v) (map (step v) (fold up vs1 (up u xs)))"
      then have "u # vs = (u # vs1) @ v # vs2 \<and> y = fold step vs2 (step v (blank v)) \<and>
            \<not> list_ex (same v) (map (step v) (fold up (u # vs1) xs))" by simp
      then show ?thesis by blast
    qed
  qed
  have fixed: "fold step vs y = y" if "y \<in> set (fold up vs xs)" for y vs xs
    using origin [OF that]
  proof (elim disjE bexE exE conjE)
    fix x assume "y = fold step vs x"
    then show ?thesis by (simp add: f)
  next
    fix vs1 v vs2
    assume vs: "vs = vs1 @ v # vs2" and y: "y = fold step vs2 (step v (blank v))"
      and none: "\<not> list_ex (same v) (map (step v) (fold up vs1 xs))"
    have other: "key u \<noteq> key v" if "u \<in> set vs1" for u
    proof
      assume k: "key u = key v"
      from there [OF that, of xs] obtain z where "z \<in> set (fold up vs1 xs)" "anchored (key u) z"
        by blast
      with a [OF b [of "key v" z v]] k none show False by (auto simp: list_ex_iff)
    qed
    from y have y': "y = fold step (v # vs2) (blank v)" by simp
    then have anc: "anchored (key v) y" by (simp only: steps [OF d])
    have "fold step us y = y" if "set us \<subseteq> set vs1" for us
      using that
    proof (induction us)
      case Nil
      then show ?case by simp
    next
      case (Cons u us)
      then have "u \<in> set vs1" by simp
      from e [OF anc other [OF this]] Cons show ?case by simp
    qed
    then have "fold step vs1 y = y" by simp
    then have "fold step vs y = fold step (v # vs2) y" by (simp add: vs)
    also have "\<dots> = y" unfolding y' by (rule f)
    finally show ?thesis .
  qed
  have "fold up ws (fold up ws xs) = map (fold step ws) (fold up ws xs)"
    by (rule updates) (simp add: there)
  also have "\<dots> = fold up ws xs" by (rule map_idI) (rule fixed)
  finally show "fold up ws (fold up ws xs) = fold up ws xs" .
  show "w \<in> set ws \<Longrightarrow> \<exists>y\<in>set (fold up ws xs). anchored (key w) y" by (rule there)
qed

subsection \<open>The merge policy, applied twice\<close>

lemma set_list_union [simp]: "set (list_union xs ys) = set xs \<union> set ys"
  by (induction ys arbitrary: xs) auto

lemma list_union_absorb: "set ys \<subseteq> set xs \<Longrightarrow> list_union xs ys = xs"
  by (induction ys arbitrary: xs) auto

lemma merge_properties_write: "merge_properties p q key = write_value (q key) (p key)"
  by (simp add: merge_properties_def write_value_def)

lemma fold_merge_properties:
  "fold (\<lambda>q p. merge_properties p q) qs p key = fold write_value (map (\<lambda>q. q key) qs) (p key)"
  by (induction qs arbitrary: p) (simp_all add: merge_properties_write)

lemma write_scalar:
  assumes "\<And>ys. x \<noteq> PyList ys"
  shows "write_value (Some x) old = Some x"
proof (cases x)
  case (PyList ys)
  with assms show ?thesis by blast
qed (simp_all add: write_value_def merge_value_def)

lemma writes_scalar:
  assumes "Some x \<in> set vs" and "\<And>ys. x \<noteq> PyList ys"
  shows "fold write_value vs old = fold write_value vs old'"
  using assms(1)
proof (induction vs arbitrary: old old')
  case Nil
  then show ?case by simp
next
  case (Cons v vs)
  show ?case
  proof (cases "Some x \<in> set vs")
    case True
    from Cons.IH [OF this] show ?thesis by simp
  next
    case False
    with Cons.prems have "v = Some x" by simp
    with write_scalar [OF assms(2)] show ?thesis by simp
  qed
qed

lemma writes_lists_absorbed:
  assumes "\<And>x. Some x \<in> set vs \<Longrightarrow> \<exists>ys. x = PyList ys \<and> set ys \<subseteq> set xs"
  shows "fold write_value vs (Some (PyList xs)) = Some (PyList xs)"
  using assms
proof (induction vs)
  case Nil
  then show ?case by simp
next
  case (Cons v vs)
  have "write_value v (Some (PyList xs)) = Some (PyList xs)"
  proof (cases v)
    case None
    then show ?thesis by (simp add: write_value_def)
  next
    case (Some x)
    with Cons.prems [of x] obtain ys where "x = PyList ys" "set ys \<subseteq> set xs" by auto
    with Some show ?thesis by (simp add: write_value_def merge_value_def list_union_absorb)
  qed
  with Cons show ?case by simp
qed

lemma writes_lists_grow:
  assumes "\<And>x. Some x \<in> set vs \<Longrightarrow> \<exists>ys. x = PyList ys"
  shows "\<exists>zs. fold write_value vs (Some (PyList xs)) = Some (PyList zs) \<and> set xs \<subseteq> set zs
           \<and> (\<forall>ys. Some (PyList ys) \<in> set vs \<longrightarrow> set ys \<subseteq> set zs)"
  using assms
proof (induction vs arbitrary: xs)
  case Nil
  then show ?case by simp
next
  case (Cons v vs)
  show ?case
  proof (cases v)
    case None
    then have w: "write_value v (Some (PyList xs)) = Some (PyList xs)"
      by (simp add: write_value_def)
    from Cons.IH [of xs] Cons.prems None w show ?thesis by auto
  next
    case (Some x)
    with Cons.prems [of x] obtain ys where x: "x = PyList ys" by auto
    have w: "write_value v (Some (PyList xs)) = Some (PyList (list_union xs ys))"
      by (simp add: Some x write_value_def merge_value_def)
    from Cons.IH [of "list_union xs ys"] Cons.prems
    obtain zs where "fold write_value vs (Some (PyList (list_union xs ys))) = Some (PyList zs)"
      and "set (list_union xs ys) \<subseteq> set zs"
      and "\<forall>ys. Some (PyList ys) \<in> set vs \<longrightarrow> set ys \<subseteq> set zs"
      by auto
    with Some x w show ?thesis by auto
  qed
qed

lemma writes_lists_made:
  assumes "\<And>x. Some x \<in> set vs \<Longrightarrow> \<exists>ys. x = PyList ys" and "Some x \<in> set vs"
  shows "\<exists>zs. fold write_value vs old = Some (PyList zs)
           \<and> (\<forall>ys. Some (PyList ys) \<in> set vs \<longrightarrow> set ys \<subseteq> set zs)"
  using assms
proof (induction vs arbitrary: old)
  case Nil
  then show ?case by simp
next
  case (Cons v vs)
  show ?case
  proof (cases v)
    case None
    with Cons.prems have x: "Some x \<in> set vs" by simp
    have w: "write_value v old = old" by (simp add: None write_value_def)
    from Cons.IH [OF _ x, of old] Cons.prems(1) None w show ?thesis by auto
  next
    case (Some u)
    with Cons.prems(1) [of u] obtain ys where u: "u = PyList ys" by auto
    define xs where "xs = list_union (case old of Some (PyList xs) \<Rightarrow> xs | _ \<Rightarrow> []) ys"
    have w: "write_value v old = Some (PyList xs)" and ys: "set ys \<subseteq> set xs"
      by (simp_all add: Some u write_value_def merge_value_def xs_def)
    from writes_lists_grow [of vs xs] Cons.prems(1)
    obtain zs where "fold write_value vs (Some (PyList xs)) = Some (PyList zs)" "set xs \<subseteq> set zs"
      "\<forall>ys. Some (PyList ys) \<in> set vs \<longrightarrow> set ys \<subseteq> set zs" by auto
    with w ys Some u show ?thesis by auto
  qed
qed

lemma writes_idem: "fold write_value vs (fold write_value vs old) = fold write_value vs old"
proof (cases "\<exists>x. Some x \<in> set vs \<and> (\<forall>ys. x \<noteq> PyList ys)")
  case True
  then obtain x where "Some x \<in> set vs" "\<And>ys. x \<noteq> PyList ys" by blast
  then show ?thesis by (rule writes_scalar)
next
  case False
  then have lists: "\<And>x. Some x \<in> set vs \<Longrightarrow> \<exists>ys. x = PyList ys" by blast
  show ?thesis
  proof (cases "\<exists>x. Some x \<in> set vs")
    case True
    then obtain x where "Some x \<in> set vs" ..
    from writes_lists_made [OF lists this, of old]
    obtain zs where zs: "fold write_value vs old = Some (PyList zs)"
      "\<forall>ys. Some (PyList ys) \<in> set vs \<longrightarrow> set ys \<subseteq> set zs" by auto
    have "fold write_value vs (Some (PyList zs)) = Some (PyList zs)"
    proof (rule writes_lists_absorbed)
      fix x assume "Some x \<in> set vs"
      with lists [OF this] zs(2) show "\<exists>ys. x = PyList ys \<and> set ys \<subseteq> set zs" by auto
    qed
    with zs show ?thesis by simp
  next
    case False
    then have "set vs \<subseteq> {None}" by (auto simp: subset_iff) (metis option.exhaust)
    then have "fold write_value vs o' = o'" for o'
      by (induction vs arbitrary: o') (auto simp: write_value_def)
    then show ?thesis by simp
  qed
qed

lemma merge_properties_idem:
  "fold (\<lambda>q p. merge_properties p q) qs (fold (\<lambda>q p. merge_properties p q) qs p) =
     fold (\<lambda>q p. merge_properties p q) qs p"
  by (rule ext) (simp add: fold_merge_properties writes_idem)

subsection \<open>Entities on the nodes\<close>

lemma same_node_step [simp]: "same_node e (node_step ts e' n) = same_node e n"
  by (simp add: node_step_def same_node_def update_node_def)

lemma node_id_step [simp]: "node_id (node_step ts e n) = node_id n"
  by (simp add: node_step_def update_node_def)

lemma create_node_step:
  "create_node embedding_of ts e =
     node_step ts e
       \<lparr>node_id = node_id e, canonical_name = canonical_name e, node_type = node_type e,
        properties = (\<lambda>key. None), embedding = embedding_of (canonical_name e),
        first_seen = ts, last_seen = ts\<rparr>"
  by (simp add: create_node_def node_step_def same_node_def update_node_def)

lemma upsert_node_steps:
  "upsert_node embedding_of ts e ns =
     (if list_ex (same_node e) (map (node_step ts e) ns) then map (node_step ts e) ns
      else map (node_step ts e) ns @ [create_node embedding_of ts e])"
proof -
  have ex: "list_ex (same_node e) (map (node_step ts e) ns) = list_ex (same_node e) ns"
    by (simp add: list_ex_iff)
  have "map (node_step ts e) ns = ns" if "\<not> list_ex (same_node e) ns"
    using that by (intro map_idI) (auto simp: list_ex_iff node_step_def)
  then show ?thesis
    unfolding ex by (auto simp: upsert_node_def upsert_def node_step_def)
qed

lemma node_steps:
  "fold (node_step ts) es n =
     (if filter (\<lambda>e. node_id e = node_id n) es = [] then n
      else n\<lparr>properties :=
               fold (\<lambda>q p. merge_properties p q)
                 (map entity_properties (filter (\<lambda>e. node_id e = node_id n) es)) (properties n),
             last_seen := ts\<rparr>)"
proof (induction es arbitrary: n)
  case Nil
  then show ?case by simp
next
  case (Cons e es)
  show ?case
  proof (cases "node_id e = node_id n")
    case True
    then have s: "node_step ts e n = update_node ts e n" by (simp add: node_step_def same_node_def)
    show ?thesis
      unfolding fold_simps s Cons.IH using True by (simp add: update_node_def)
  next
    case False
    then have s: "node_step ts e n = n" by (simp add: node_step_def same_node_def)
    show ?thesis
      unfolding fold_simps s Cons.IH using False by simp
  qed
qed

lemma node_steps_idem:
  "fold (node_step ts) es (fold (node_step ts) es n) = fold (node_step ts) es (n :: 'v graph_node)"
proof (cases "filter (\<lambda>e. node_id e = node_id n) es = []")
  case True
  then have "fold (node_step ts) es n = n" by (simp add: node_steps)
  then show ?thesis by simp
next
  case False
  let ?F = "fold (\<lambda>q p. merge_properties p q)
      (map entity_properties (filter (\<lambda>e. node_id e = node_id n) es))"
  from False have z: "fold (node_step ts) es n = n\<lparr>properties := ?F (properties n), last_seen := ts\<rparr>"
    by (simp add: node_steps)
  show ?thesis
    unfolding z by (subst node_steps) (simp add: False merge_properties_idem)
qed

lemma nodes_twice:
  "fold (upsert_node embedding_of ts) es (fold (upsert_node embedding_of ts) es ns) =
     fold (upsert_node embedding_of ts) es ns"
  "e \<in> set es \<Longrightarrow> \<exists>n\<in>set (fold (upsert_node embedding_of ts) es ns). node_id n = node_id e"
proof -
  let ?blank = "\<lambda>e :: resolved_entity.
       \<lparr>node_id = node_id e, canonical_name = canonical_name e, node_type = node_type e,
        properties = (\<lambda>key. None), embedding = embedding_of (canonical_name e),
        first_seen = ts, last_seen = ts\<rparr>"
  note p = upsert_pass [where up = "upsert_node embedding_of ts" and same = same_node
      and step = "node_step ts" and blank = ?blank and key = node_id
      and anchored = "\<lambda>k n. node_id n = k"]
  have U: "upsert_node embedding_of ts w xs =
      (if list_ex (same_node w) (map (node_step ts w) xs) then map (node_step ts w) xs
       else map (node_step ts w) xs @ [node_step ts w (?blank w)])" for w xs
    unfolding upsert_node_steps create_node_step ..
  show "fold (upsert_node embedding_of ts) es (fold (upsert_node embedding_of ts) es ns) =
     fold (upsert_node embedding_of ts) es ns"
    by (rule p(1)) (simp_all add: U same_node_def node_step_def update_node_def node_steps_idem)
  show "\<exists>n\<in>set (fold (upsert_node embedding_of ts) es ns). node_id n = node_id e" if "e \<in> set es"
    using that by (rule p(2) [rotated -1]) (simp_all add: U same_node_def node_step_def update_node_def node_steps_idem)
qed

subsection \<open>Relationships on the edges\<close>

lemma same_edge_key: "same_edge x y \<longleftrightarrow> is_active y \<and> edge_key y = rel_key x"
  by (auto simp: same_edge_def same_pair_def edge_key_def rel_key_def)

lemma same_edge_update [simp]: "same_edge x (update_edge ts x' y) = same_edge x y"
  by (simp add: same_edge_def same_pair_def update_edge_def is_active_def)

lemma edge_step_closed: "\<not> is_active y \<Longrightarrow> edge_step conflicts ts x y = y"
  by (simp add: edge_step_def close_edge_def same_edge_def)

lemma edge_step_settled:
  "settled ts y \<Longrightarrow>
     edge_step conflicts ts x y = (if rel_key x = edge_key y then update_edge ts x y else y)"
  by (auto simp: edge_step_def close_edge_def settled_def same_edge_key)

lemma settled_update [simp]: "is_active y \<Longrightarrow> settled ts (update_edge ts x y)"
  by (simp add: settled_def update_edge_def is_active_def)

lemma edge_key_update [simp]: "edge_key (update_edge ts x y) = edge_key y"
  by (simp add: edge_key_def update_edge_def)

lemma settled_step:
  "settled ts y \<Longrightarrow> settled ts (edge_step conflicts ts x y)
     \<and> edge_key (edge_step conflicts ts x y) = edge_key y"
  by (auto simp: edge_step_settled settled_def update_edge_def is_active_def edge_key_def)

lemma create_edge_step:
  "create_edge ts x =
     edge_step conflicts ts x
       \<lparr>source_id = rel_source x, target_id = rel_target x, edge_type = rel_type x,
        edge_properties = (\<lambda>key. None), valid_from = ts, valid_to = None, edge_last_seen = ts\<rparr>"
  by (simp add: create_edge_def edge_step_def close_edge_def same_edge_def same_pair_def
      is_active_def update_edge_def)

lemma upsert_edge_steps:
  "upsert_edge conflicts ts x es =
     (if list_ex (same_edge x) (map (edge_step conflicts ts x) es)
      then map (edge_step conflicts ts x) es
      else map (edge_step conflicts ts x) es @ [create_edge ts x])"
proof -
  let ?c = "close_edge conflicts ts x"
  have s: "same_edge x (edge_step conflicts ts x y) = same_edge x (?c y)" for y
    by (simp add: edge_step_def)
  have ex: "list_ex (same_edge x) (map (edge_step conflicts ts x) es) =
      list_ex (same_edge x) (map ?c es)"
    by (simp add: list_ex_iff s)
  have m: "map (\<lambda>y. if same_edge x y then update_edge ts x y else y) (map ?c es) =
      map (edge_step conflicts ts x) es"
    by (simp add: edge_step_def comp_def)
  show ?thesis
  proof (cases "list_ex (same_edge x) (map ?c es)")
    case True
    then show ?thesis unfolding ex upsert_edge_def upsert_def m by simp
  next
    case False
    then have "map (edge_step conflicts ts x) es = map ?c es"
      by (auto simp: list_ex_iff edge_step_def)
    with False show ?thesis unfolding ex upsert_edge_def upsert_def by simp
  qed
qed

lemma settled_steps:
  assumes "settled ts y"
  shows "fold (edge_step conflicts ts) xs y =
     (if filter (\<lambda>x. rel_key x = edge_key y) xs = [] then y
      else y\<lparr>edge_properties :=
               fold (\<lambda>q p. merge_properties p q)
                 (map rel_properties (filter (\<lambda>x. rel_key x = edge_key y) xs)) (edge_properties y),
             edge_last_seen := ts\<rparr>)"
  using assms
proof (induction xs arbitrary: y)
  case Nil
  then show ?case by simp
next
  case (Cons x xs)
  show ?case
  proof (cases "rel_key x = edge_key y")
    case True
    with Cons.prems have s: "edge_step conflicts ts x y = update_edge ts x y"
      by (simp add: edge_step_settled)
    from Cons.prems have "settled ts (update_edge ts x y)"
      by (simp add: settled_def update_edge_def is_active_def)
    from Cons.IH [OF this] True show ?thesis
      unfolding fold_simps s by (simp add: update_edge_def edge_key_def)
  next
    case False
    with Cons.prems have s: "edge_step conflicts ts x y = y" by (simp add: edge_step_settled)
    from Cons.IH [OF Cons.prems] False show ?thesis
      unfolding fold_simps s by simp
  qed
qed

lemma settled_fold:
  "settled ts y \<Longrightarrow> settled ts (fold (edge_step conflicts ts) xs y)
     \<and> edge_key (fold (edge_step conflicts ts) xs y) = edge_key y"
  by (induction xs arbitrary: y) (simp_all add: settled_step)

lemma settled_steps_idem:
  assumes "settled ts y"
  shows "fold (edge_step conflicts ts) xs (fold (edge_step conflicts ts) xs y) =
     fold (edge_step conflicts ts) xs y"
proof (cases "filter (\<lambda>x. rel_key x = edge_key y) xs = []")
  case True
  with assms have "fold (edge_step conflicts ts) xs y = y" by (simp add: settled_steps)
  then show ?thesis by simp
next
  case False
  let ?F = "fold (\<lambda>q p. merge_properties p q)
      (map rel_properties (filter (\<lambda>x. rel_key x = edge_key y) xs))"
  let ?z = "y\<lparr>edge_properties := ?F (edge_properties y), edge_last_seen := ts\<rparr>"
  from False assms have z: "fold (edge_step conflicts ts) xs y = ?z"
    by (simp add: settled_steps)
  from assms have sz: "settled ts ?z" by (simp add: settled_def is_active_def)
  have kz: "edge_key ?z = edge_key y" by (simp add: edge_key_def)
  show ?thesis
    unfolding z settled_steps [OF sz] kz by (simp add: False merge_properties_idem)
qed

lemma closed_fold: "\<not> is_active y \<Longrightarrow> fold (edge_step conflicts ts) xs y = y"
  by (induction xs) (simp_all add: edge_step_closed)

lemma edge_fold_cases:
  "fold (edge_step conflicts ts) xs y = y
   \<or> \<not> is_active (fold (edge_step conflicts ts) xs y)
   \<or> settled ts (fold (edge_step conflicts ts) xs y)
       \<and> edge_key (fold (edge_step conflicts ts) xs y) = edge_key y"
proof (induction xs arbitrary: y)
  case Nil
  then show ?case by simp
next
  case (Cons x xs)
  let ?y1 = "edge_step conflicts ts x y"
  have "?y1 = y \<or> \<not> is_active ?y1 \<or> settled ts ?y1 \<and> edge_key ?y1 = edge_key y"
  proof (cases "same_edge x (close_edge conflicts ts x y)")
    case True
    then have "?y1 = update_edge ts x (close_edge conflicts ts x y)"
      by (simp add: edge_step_def)
    with True show ?thesis
      by (auto simp: same_edge_key close_edge_def edge_key_def update_edge_def settled_def
          is_active_def split: if_splits)
  next
    case False
    then have "?y1 = close_edge conflicts ts x y" by (simp add: edge_step_def)
    then show ?thesis by (auto simp: close_edge_def is_active_def)
  qed
  then consider (same) "?y1 = y" | (closed) "\<not> is_active ?y1"
    | (updated) "settled ts ?y1" "edge_key ?y1 = edge_key y"
    by blast
  then show ?case
  proof cases
    case same
    with Cons.IH [of y] show ?thesis by simp
  next
    case closed
    then show ?thesis by (simp add: closed_fold)
  next
    case updated
    with settled_fold [OF updated(1), of conflicts xs] show ?thesis by simp
  qed
qed

lemma edge_steps_idem:
  "fold (edge_step conflicts ts) xs (fold (edge_step conflicts ts) xs y) =
     fold (edge_step conflicts ts) xs y"
proof (induction xs arbitrary: y)
  case Nil
  then show ?case by simp
next
  case (Cons x xs)
  let ?S = "fold (edge_step conflicts ts)"
  consider (closed) "\<not> is_active y" | (settled) "settled ts y"
    | (unsettled) "is_active y" "edge_last_seen y < ts"
    by (cases "is_active y"; cases "edge_last_seen y < ts") (auto simp: settled_def)
  then show ?case
  proof cases
    case closed
    then have "?S (x # xs) y = y" by (rule closed_fold)
    then show ?thesis by simp
  next
    case settled
    then show ?thesis by (rule settled_steps_idem)
  next
    case unsettled
    let ?y1 = "edge_step conflicts ts x y"
    consider (closes) "\<not> is_active ?y1"
      | (updates) "is_active ?y1" "rel_key x = edge_key y"
      | (passes) "is_active ?y1" "rel_key x \<noteq> edge_key y"
      by blast
    then show ?thesis
    proof cases
      case closes
      then have "?S xs ?y1 = ?y1" by (rule closed_fold)
      moreover from closes have "edge_step conflicts ts x ?y1 = ?y1" by (rule edge_step_closed)
      ultimately show ?thesis by simp
    next
      case updates
      let ?y' = "y\<lparr>edge_last_seen := ts\<rparr>"
      from unsettled have sy': "settled ts ?y'" by (simp add: settled_def is_active_def)
      have cl: "close_edge conflicts ts x y = y"
      proof (rule ccontr)
        assume "close_edge conflicts ts x y \<noteq> y"
        then have "close_edge conflicts ts x y = y\<lparr>valid_to := Some ts\<rparr>"
          by (simp add: close_edge_def split: if_splits)
        then have "\<not> is_active ?y1"
          by (simp add: edge_step_def same_edge_def is_active_def)
        with updates(1) show False by simp
      qed
      from updates(2) unsettled(1) have "same_edge x y" by (simp add: same_edge_key)
      with cl have "?y1 = update_edge ts x y" by (simp add: edge_step_def)
      also have "update_edge ts x y = update_edge ts x ?y'" by (simp add: update_edge_def)
      also from updates sy' have "update_edge ts x ?y' = edge_step conflicts ts x ?y'"
        by (simp add: edge_step_settled edge_key_def)
      finally have "?S (x # xs) y = ?S (x # xs) ?y'" by simp
      with settled_steps_idem [OF sy', of conflicts "x # xs"] show ?thesis by simp
    next
      case passes
      have cl: "close_edge conflicts ts x y = y"
      proof (rule ccontr)
        assume "close_edge conflicts ts x y \<noteq> y"
        then have "close_edge conflicts ts x y = y\<lparr>valid_to := Some ts\<rparr>"
          by (simp add: close_edge_def split: if_splits)
        then have "\<not> is_active ?y1"
          by (simp add: edge_step_def same_edge_def is_active_def)
        with passes(1) show False by simp
      qed
      from passes(2) have "\<not> same_edge x y" by (simp add: same_edge_key)
      with cl have y1: "?y1 = y" by (simp add: edge_step_def)
      let ?z = "?S xs y"
      have "edge_step conflicts ts x ?z = ?z"
        using edge_fold_cases [of conflicts ts xs y]
      proof (elim disjE conjE)
        assume "?z = y"
        with y1 show ?thesis by simp
      next
        assume "\<not> is_active ?z"
        then show ?thesis by (rule edge_step_closed)
      next
        assume "settled ts ?z" "edge_key ?z = edge_key y"
        with passes(2) show ?thesis by (simp add: edge_step_settled)
      qed
      with y1 Cons.IH [of y] show ?thesis by simp
    qed
  qed
qed

lemma edges_twice:
  "fold (upsert_edge conflicts ts) xs (fold (upsert_edge conflicts ts) xs es) =
     fold (upsert_edge conflicts ts) xs es"
  "x \<in> set xs \<Longrightarrow> \<exists>y\<in>set (fold (upsert_edge conflicts ts) xs es). same_edge x y"
proof -
  let ?blank = "\<lambda>x :: resolved_relationship.
       \<lparr>source_id = rel_source x, target_id = rel_target x, edge_type = rel_type x,
        edge_properties = (\<lambda>key. None), valid_from = ts, valid_to = None, edge_last_seen = ts\<rparr>"
  have U: "upsert_edge conflicts ts w zs =
      (if list_ex (same_edge w) (map (edge_step conflicts ts w) zs)
       then map (edge_step conflicts ts w) zs
       else map (edge_step conflicts ts w) zs @ [edge_step conflicts ts w (?blank w)])" for w zs
    unfolding upsert_edge_steps create_edge_step [of ts w conflicts] ..
  have a: "same_edge w y" if "anchored_edge ts (rel_key w) y" for w y
    using that by (simp add: anchored_edge_def same_edge_key settled_def)
  have b: "anchored_edge ts k (edge_step conflicts ts w y)" if "anchored_edge ts k y" for k w y
    using that settled_step [of ts y conflicts w] by (simp add: anchored_edge_def)
  have c: "anchored_edge ts (rel_key w) (edge_step conflicts ts w y)"
    if "same_edge w (edge_step conflicts ts w y)" for w y
    using that
    by (auto simp: anchored_edge_def edge_step_def same_edge_key settled_def update_edge_def
        is_active_def edge_key_def split: if_splits)
  have d: "anchored_edge ts (rel_key w) (?blank w)" for w
    by (simp add: anchored_edge_def settled_def is_active_def edge_key_def rel_key_def)
  have e: "edge_step conflicts ts w y = y" if "anchored_edge ts k y" "rel_key w \<noteq> k" for k w y
    using that by (auto simp: anchored_edge_def edge_step_settled)
  note p = upsert_pass [where up = "upsert_edge conflicts ts" and same = same_edge
      and step = "edge_step conflicts ts" and blank = ?blank and key = rel_key
      and anchored = "anchored_edge ts"]
  show "fold (upsert_edge conflicts ts) xs (fold (upsert_edge conflicts ts) xs es) =
     fold (upsert_edge conflicts ts) xs es"
  proof (rule p(1))
    show "\<And>w zs. upsert_edge conflicts ts w zs =
      (if list_ex (same_edge w) (map (edge_step conflicts ts w) zs)
       then map (edge_step conflicts ts w) zs
       else map (edge_step conflicts ts w) zs @ [edge_step conflicts ts w (?blank w)])"
      by (rule U)
  qed (fact a b c d e edge_steps_idem)+
  show "\<exists>y\<in>set (fold (upsert_edge conflicts ts) xs es). same_edge x y" if "x \<in> set xs"
  proof -
    have "\<exists>y\<in>set (fold (upsert_edge conflicts ts) xs es). anchored_edge ts (rel_key x) y"
    proof (rule p(2))
      show "\<And>w zs. upsert_edge conflicts ts w zs =
        (if list_ex (same_edge w) (map (edge_step conflicts ts w) zs)
         then map (edge_step conflicts ts w) zs
         else map (edge_step conflicts ts w) zs @ [edge_step conflicts ts w (?blank w)])"
        by (rule U)
    qed (fact a b c d e edge_steps_idem that)+
    with a show ?thesis by blast
  qed
qed

subsection \<open>The invariants of the graph state\<close>

lemma upsert_node_ids:
  "map node_id (upsert_node embedding_of ts e ns) =
     (if node_id e \<in> set (map node_id ns) then map node_id ns else map node_id ns @ [node_id e])"
proof -
  have "list_ex (same_node e) ns \<longleftrightarrow> node_id e \<in> set (map node_id ns)"
    by (auto simp: list_ex_iff same_node_def image_iff) metis
  then show ?thesis
    by (simp add: upsert_node_steps list_ex_iff comp_def create_node_def)
qed

lemma nodes_distinct:
  "distinct (map node_id ns) \<Longrightarrow> distinct (map node_id (fold (upsert_node embedding_of ts) es ns))"
proof (induction es arbitrary: ns)
  case Nil
  then show ?case by simp
next
  case (Cons e es)
  from Cons.prems have "distinct (map node_id (upsert_node embedding_of ts e ns))"
    unfolding upsert_node_ids by simp
  from Cons.IH [OF this] show ?case by simp
qed

lemma close_edge_key [simp]: "edge_key (close_edge conflicts ts x y) = edge_key y"
  by (simp add: close_edge_def edge_key_def)

lemma active_close: "is_active (close_edge conflicts ts x y) \<Longrightarrow> is_active y"
  by (simp add: close_edge_def is_active_def split: if_splits)

lemma active_keys_close:
  assumes "distinct (map edge_key (filter is_active es))"
  shows "distinct (map edge_key (filter is_active (map (close_edge conflicts ts x) es)))"
proof -
  let ?c = "close_edge conflicts ts x"
  have f: "filter (\<lambda>y. is_active (?c y)) es = filter (\<lambda>y. is_active (?c y)) (filter is_active es)"
    by (induction es) (auto dest: active_close)
  have "map edge_key (filter is_active (map ?c es)) =
      map edge_key (filter (\<lambda>y. is_active (?c y)) es)"
    by (simp add: filter_map comp_def)
  also have "\<dots> = map edge_key (filter (\<lambda>y. is_active (?c y)) (filter is_active es))"
    by (subst f) (rule refl)
  finally show ?thesis
    using distinct_map_filter [OF assms, of "\<lambda>y. is_active (?c y)"] by (simp only:)
qed

lemma active_keys_upsert:
  assumes "distinct (map edge_key (filter is_active es))"
  shows "distinct (map edge_key (filter is_active (upsert_edge conflicts ts x es)))"
proof -
  let ?es = "map (close_edge conflicts ts x) es"
  note d = active_keys_close [OF assms, of conflicts ts x]
  show ?thesis
  proof (cases "list_ex (same_edge x) ?es")
    case True
    have "map edge_key (filter is_active
        (map (\<lambda>y. if same_edge x y then update_edge ts x y else y) ?es)) =
        map edge_key (filter is_active ?es)"
      by (induction es) (auto simp: update_edge_def is_active_def edge_key_def)
    with True d show ?thesis by (simp add: upsert_edge_def upsert_def)
  next
    case False
    then have "rel_key x \<notin> set (map edge_key (filter is_active ?es))"
      by (auto simp: list_ex_iff same_edge_key)
    moreover have "is_active (create_edge ts x)" "edge_key (create_edge ts x) = rel_key x"
      by (simp_all add: create_edge_def is_active_def edge_key_def rel_key_def)
    ultimately show ?thesis using False d by (simp add: upsert_edge_def upsert_def)
  qed
qed

lemma edges_distinct:
  "distinct (map edge_key (filter is_active es)) \<Longrightarrow>
     distinct (map edge_key (filter is_active (fold (upsert_edge conflicts ts) xs es)))"
proof (induction xs arbitrary: es)
  case Nil
  then show ?case by simp
next
  case (Cons x xs)
  from Cons.IH [OF active_keys_upsert [OF Cons.prems]] show ?case by simp
qed

lemma merge_well_formed:
  "well_formed g \<Longrightarrow> well_formed (merge conflicts embedding_of g r)"
  by (simp add: well_formed_def merge_def nodes_distinct edges_distinct)

text \<open>The facts that evaluate the merge on the inputs of the examples.\<close>

lemmas eval_merge =
  merge_def upsert_node_def upsert_edge_def upsert_def same_node_def update_node_def
  create_node_def is_active_def same_pair_def same_edge_def close_edge_def update_edge_def
  create_edge_def merge_properties_def merge_value_def well_formed_def edge_key_def
  other_type_def home_def report_def

section \<open>Claims\<close>

subsection \<open>C1: merging the same Extraction Result twice\<close>

text \<open>
  C1.  For every graph state \<open>g\<close> and every Extraction Result \<open>r\<close>, merging \<open>r\<close> into the
  state that merging \<open>r\<close> into \<open>g\<close> has given leaves that state as it is: the second
  application makes no node and no edge and changes none.  The first application keeps
  the ids of the nodes distinct and the active edges distinct in (source, target, type)
  when they were, and after it every entity of \<open>r\<close> has the node of its id and every
  relationship of \<open>r\<close> an active edge of its source, target and type.  This holds whatever
  relationship types conflict and whatever the embeddings are.
\<close>

theorem merging_twice:
  "merge conflicts embedding_of (merge conflicts embedding_of g r) r = merge conflicts embedding_of g r
   \<and> (well_formed g \<longrightarrow> well_formed (merge conflicts embedding_of g r))
   \<and> (\<forall>e\<in>set (entities r).
         \<exists>n\<in>set (graph_nodes (merge conflicts embedding_of g r)). node_id n = node_id e)
   \<and> (\<forall>x\<in>set (relationships r).
         \<exists>y\<in>set (graph_edges (merge conflicts embedding_of g r)). same_edge x y)"
  using nodes_twice [where embedding_of = embedding_of and ts = "event_timestamp r"
      and es = "entities r" and ns = "graph_nodes g"]
    edges_twice [where conflicts = conflicts and ts = "event_timestamp r"
      and xs = "relationships r" and es = "graph_edges g"]
    merge_well_formed [of g conflicts embedding_of r]
  by (simp add: merge_def)

text \<open>
  The example: the node that is there keeps its place, takes the new status and both
  tags and is last seen at 20; the new node is added; the edge of the old type is closed
  at 20, where the edge of the new type starts.
\<close>

theorem merging_twice_witness:
  "well_formed home
   \<and> merge other_type length (merge other_type length home report) report =
       merge other_type length home report
   \<and> well_formed (merge other_type length home report)
   \<and> map node_id (graph_nodes (merge other_type length home report)) = [1, 2, 3]
   \<and> map last_seen (graph_nodes (merge other_type length home report)) = [20, 10, 20]
   \<and> map (\<lambda>n. properties n (py ''status'')) (graph_nodes (merge other_type length home report)) =
       [Some (PyStr (py ''off'')), None, None]
   \<and> map (\<lambda>n. properties n (py ''tags'')) (graph_nodes (merge other_type length home report)) =
       [Some (PyList [PyStr (py ''a''), PyStr (py ''b'')]), None, None]
   \<and> map (\<lambda>y. (edge_type y, valid_from y, valid_to y)) (graph_edges (merge other_type length home report)) =
       [(py ''near'', 10, Some 20), (py ''far'', 20, None)]"
proof -
  have w: "well_formed home" by (simp add: eval_merge)
  have n: "map node_id (graph_nodes (merge other_type length home report)) = [1, 2, 3]"
    "map last_seen (graph_nodes (merge other_type length home report)) = [20, 10, 20]"
    "map (\<lambda>n. properties n (py ''status'')) (graph_nodes (merge other_type length home report)) =
       [Some (PyStr (py ''off'')), None, None]"
    "map (\<lambda>n. properties n (py ''tags'')) (graph_nodes (merge other_type length home report)) =
       [Some (PyList [PyStr (py ''a''), PyStr (py ''b'')]), None, None]"
    by (simp_all add: eval_merge)
  have e: "map (\<lambda>y. (edge_type y, valid_from y, valid_to y))
      (graph_edges (merge other_type length home report)) =
       [(py ''near'', 10, Some 20), (py ''far'', 20, None)]"
    by (simp add: eval_merge)
  from merging_twice [of other_type length home report] w n e show ?thesis by simp
qed

subsection \<open>C2: output that is not JSON\<close>

text \<open>
  C2, as the code has it.  When the model's output is a text on whose content, after
  the fences are stripped, \<^verbatim>\<open>json.loads\<close> raises \<^verbatim>\<open>JSONDecodeError\<close>,
  \<^verbatim>\<open>extract_entities_and_relationships\<close> returns
  \<^verbatim>\<open>{"entities": [], "relationships": []}\<close>; it returns, so it raises nothing.  When
  \<^verbatim>\<open>json.loads\<close> raises anything else, which is \<^verbatim>\<open>RecursionError\<close> or the \<^verbatim>\<open>ValueError\<close>
  of \<^verbatim>\<open>int\<close>, that exception leaves \<^verbatim>\<open>extract_entities_and_relationships\<close>.
\<close>

theorem JSONDecodeError_gives_empty_result:
  assumes "fst (generate_completion self (extraction_prompt event_text)
                  (PyStr extraction_system_prompt) w) = Inr (PyStr raw)"
    and "json_loads (interp w) (strip_fences raw) = Inl e"
  shows "(is_JSONDecodeError e \<longrightarrow>
            fst (extract_entities_and_relationships self event_text w) = Inr empty_result)
       \<and> (\<not> is_JSONDecodeError e \<longrightarrow>
            fst (extract_entities_and_relationships self event_text w) = Inl e
            \<and> (e = RecursionError \<or> e = int_limit_error))"
  using extract_of_text [OF assms(1)] assms(2) json_loads_error [OF assms(2)] by auto

text \<open>
  The model answers \<^verbatim>\<open>not json\<close>, and the model answers with 1001 opening brackets,
  where the interpreter can enter 1000 arrays.
\<close>

theorem JSONDecodeError_gives_empty_result_witness:
  "fst (generate_completion example_client (extraction_prompt (py ''light on''))
          (PyStr extraction_system_prompt) (replying (PyStr (py ''not json'')))) =
     Inr (PyStr (py ''not json''))
   \<and> json_loads cpython (strip_fences (py ''not json''))
       = Inl (JSONDecodeError ''Expecting value'')
   \<and> fst (extract_entities_and_relationships example_client (py ''light on'')
          (replying (PyStr (py ''not json'')))) = Inr empty_result
   \<and> fst (generate_completion example_client (extraction_prompt (py ''light on''))
          (PyStr extraction_system_prompt) (replying (PyStr (replicate 1001 91)))) =
     Inr (PyStr (replicate 1001 91))
   \<and> json_loads cpython (strip_fences (replicate 1001 91)) = Inl RecursionError
   \<and> fst (extract_entities_and_relationships example_client (py ''light on'')
          (replying (PyStr (replicate 1001 91)))) = Inl RecursionError"
proof -
  let ?w = "replying (PyStr (py ''not json''))" and ?w' = "replying (PyStr (replicate 1001 91))"
  have h1: "fst (generate_completion example_client (extraction_prompt (py ''light on''))
          (PyStr extraction_system_prompt) ?w) = Inr (PyStr (py ''not json''))"
    by (rule completion_replying)
  have h2: "json_loads (interp ?w) (strip_fences (py ''not json''))
      = Inl (JSONDecodeError ''Expecting value'')"
    by (simp add: eval_json)
  have c: "recursion_left cpython < Suc 1000" "replicate 1001 91 = replicate (Suc 1000) (91::nat)"
    by (simp_all add: cpython_def)
  have h3: "fst (generate_completion example_client (extraction_prompt (py ''light on''))
          (PyStr extraction_system_prompt) ?w') = Inr (PyStr (replicate 1001 91))"
    by (rule completion_replying)
  have h4: "json_loads (interp ?w') (strip_fences (replicate 1001 91)) = Inl RecursionError"
    using open_brackets_raise [OF c(1)] by (simp only: c(2) interp_replying)
  from JSONDecodeError_gives_empty_result [OF h1 h2] JSONDecodeError_gives_empty_result [OF h3 h4]
    h1 h2 h3 h4
  show ?thesis by simp
qed

text \<open>
  C2 as stated fails: 1001 opening brackets are not JSON, and
  \<^verbatim>\<open>extract_entities_and_relationships\<close> does not return the empty result on them: the
  \<^verbatim>\<open>RecursionError\<close> of the decoder is no \<^verbatim>\<open>JSONDecodeError\<close> and leaves the function.
\<close>

theorem open_brackets_leave_with_RecursionError:
  "fst (generate_completion example_client (extraction_prompt (py ''light on''))
          (PyStr extraction_system_prompt) (replying (PyStr (replicate 1001 91)))) =
     Inr (PyStr (replicate 1001 91))
   \<and> fst (extract_entities_and_relationships example_client (py ''light on'')
          (replying (PyStr (replicate 1001 91)))) = Inl RecursionError
   \<and> Inl RecursionError \<noteq> (Inr empty_result :: exn + pyobj)"
proof -
  let ?w = "replying (PyStr (replicate 1001 91))"
  have h1: "fst (generate_completion example_client (extraction_prompt (py ''light on''))
          (PyStr extraction_system_prompt) ?w) = Inr (PyStr (replicate 1001 91))"
    by (rule completion_replying)
  have c: "recursion_left cpython < Suc 1000" "replicate 1001 91 = replicate (Suc 1000) (91::nat)"
    by (simp_all add: cpython_def)
  have "json_loads (interp ?w) (strip_fences (replicate 1001 91)) = Inl RecursionError"
    using open_brackets_raise [OF c(1)] by (simp only: c(2) interp_replying)
  with extract_of_text [OF h1] h1 show ?thesis by simp
qed

subsection \<open>C3: a failed call of the model\<close>

text \<open>
  C3, as the code has it.  When the request to the model backend raises an instance of
  \<^verbatim>\<open>Exception\<close> (a timeout, a transport failure), the extraction makes no further
  request and waits for nothing: after this one request it returns the empty result.
\<close>

theorem failed_call_is_not_retried:
  assumes "backend w (length (posts w)) = PostRaises e" and "is_Exception e"
  shows "fst (extract_entities_and_relationships self event_text w) = Inr empty_result
       \<and> length (posts (snd (extract_entities_and_relationships self event_text w))) =
           length (posts w) + 1
       \<and> sleeps (snd (extract_entities_and_relationships self event_text w)) = sleeps w"
proof -
  have "fst (generate_completion self (extraction_prompt event_text)
      (PyStr extraction_system_prompt) w) = Inr (PyStr [])"
    using assms by (simp add: generate_completion_fst)
  from extract_of_text [OF this] empty_text_is_no_json extract_effects
  show ?thesis by simp
qed

theorem failed_call_is_not_retried_witness:
  "backend (failing TimeoutError (Response 200 (Inr (PyDict [(py ''response'', PyStr light_json)]))))
      (length (posts (failing TimeoutError
         (Response 200 (Inr (PyDict [(py ''response'', PyStr light_json)])))))) =
     PostRaises TimeoutError
   \<and> is_Exception TimeoutError
   \<and> fst (extract_entities_and_relationships example_client (py ''light on'')
         (failing TimeoutError (Response 200 (Inr (PyDict [(py ''response'', PyStr light_json)])))))
       = Inr empty_result"
proof -
  have h: "backend (failing TimeoutError
        (Response 200 (Inr (PyDict [(py ''response'', PyStr light_json)]))))
      (length (posts (failing TimeoutError
         (Response 200 (Inr (PyDict [(py ''response'', PyStr light_json)])))))) =
     PostRaises TimeoutError"
    by (simp add: failing_def)
  have e: "is_Exception TimeoutError" by simp
  from failed_call_is_not_retried [OF h e] h e show ?thesis by simp
qed

text \<open>
  C3 as stated fails: the first request times out and the backend would answer a second
  one with an extraction result (the last conjunct shows what the extraction returns
  when that answer comes first), yet the extraction returns the empty result after
  exactly one request and without any delay.
\<close>

theorem timed_out_call_is_given_up_at_once:
  "fst (extract_entities_and_relationships example_client (py ''light on'')
         (failing TimeoutError (Response 200 (Inr (PyDict [(py ''response'', PyStr light_json)])))))
     = Inr empty_result
   \<and> length (posts (snd (extract_entities_and_relationships example_client (py ''light on'')
         (failing TimeoutError (Response 200 (Inr (PyDict [(py ''response'', PyStr light_json)])))))))
     = 1
   \<and> sleeps (snd (extract_entities_and_relationships example_client (py ''light on'')
         (failing TimeoutError (Response 200 (Inr (PyDict [(py ''response'', PyStr light_json)]))))))
     = []
   \<and> fst (extract_entities_and_relationships example_client (py ''light on'')
         (replying (PyStr light_json)))
     = Inr light_result"
proof -
  let ?w = "failing TimeoutError (Response 200 (Inr (PyDict [(py ''response'', PyStr light_json)])))"
  have p: "posts ?w = []" "sleeps ?w = []"
    by (simp_all add: failing_def)
  have "fst (generate_completion example_client (extraction_prompt (py ''light on''))
          (PyStr extraction_system_prompt) ?w) = Inr (PyStr [])"
    by (simp add: generate_completion_fst failing_def)
  from extract_of_text [OF this] empty_text_is_no_json
  have r: "fst (extract_entities_and_relationships example_client (py ''light on'') ?w) =
      Inr empty_result"
    by simp
  have "fst (generate_completion example_client (extraction_prompt (py ''light on''))
          (PyStr extraction_system_prompt) (replying (PyStr light_json))) = Inr (PyStr light_json)"
    by (rule completion_replying)
  from extract_of_text [OF this] light_json_decodes
  have a: "fst (extract_entities_and_relationships example_client (py ''light on'')
      (replying (PyStr light_json))) = Inr light_result"
    by simp
  from r a p extract_effects [of example_client "py ''light on''" ?w]
  show ?thesis by simp
qed

subsection \<open>C4: fences\<close>

text \<open>
  C4.  For a text \<open>s\<close> that \<^verbatim>\<open>json.loads\<close> decodes to \<open>v\<close>, the stripping and
  decoding step of the parser, given \<open>s\<close> between \<^verbatim>\<open>```json\<close> and \<^verbatim>\<open>```\<close> or between
  \<^verbatim>\<open>```\<close> and \<^verbatim>\<open>```\<close>, returns what it returns given \<open>s\<close> itself, and that is \<open>v\<close>,
  with nothing logged.
\<close>

theorem fence_stripping_roundtrip:
  assumes "json_loads (interp w) s = Inr v"
  shows "parse_response (PyStr (py ''```json'' @ s @ py ''```'')) w = parse_response (PyStr s) w
       \<and> parse_response (PyStr (py ''```'' @ s @ py ''```'')) w = parse_response (PyStr s) w
       \<and> parse_response (PyStr s) w = (Inr v, w)"
proof -
  from json_loads_first_char [OF assms] have "s = [] \<or> hd s \<noteq> 106" by simp
  then have "strip_fences (py ''```'' @ s @ py ''```'') = s"
    by (rule strip_fences_plain)
  moreover have "strip_fences (py ''```json'' @ s @ py ''```'') = s"
    by (rule strip_fences_json)
  ultimately have
    "parse_response (PyStr (py ''```json'' @ s @ py ''```'')) w = (Inr v, w)
     \<and> parse_response (PyStr (py ''```'' @ s @ py ''```'')) w = (Inr v, w)"
    using assms by (simp add: parse_response_def)
  with parse_response_unwrapped [OF assms] show ?thesis by simp
qed

text \<open>An extraction result on a line of its own, inside the fence and without it.\<close>

theorem fence_stripping_roundtrip_witness:
  "json_loads cpython (py ''\<newline>'' @ light_json @ py ''\<newline>'') = Inr light_result
   \<and> parse_response
        (PyStr (py ''```json'' @ (py ''\<newline>'' @ light_json @ py ''\<newline>'') @ py ''```''))
        (answering (PostRaises TimeoutError))
      = (Inr light_result, answering (PostRaises TimeoutError))
   \<and> parse_response
        (PyStr (py ''```'' @ (py ''\<newline>'' @ light_json @ py ''\<newline>'') @ py ''```''))
        (answering (PostRaises TimeoutError))
      = (Inr light_result, answering (PostRaises TimeoutError))
   \<and> parse_response (PyStr (py ''\<newline>'' @ light_json @ py ''\<newline>''))
        (answering (PostRaises TimeoutError))
      = (Inr light_result, answering (PostRaises TimeoutError))"
proof -
  have h: "json_loads (interp (answering (PostRaises TimeoutError)))
      (py ''\<newline>'' @ light_json @ py ''\<newline>'') = Inr light_result"
    by (simp add: light_json_def light_result_def eval_json)
  from fence_stripping_roundtrip [OF h] h
  show ?thesis by simp
qed

subsection \<open>C5: the insight cap\<close>

text \<open>
  C5.  Whenever the model's response is a text, \<^verbatim>\<open>analyze_patterns\<close> returns at most 10
  insights, and each of them is a line of the response (split at the line feeds) after
  \<^verbatim>\<open>strip()\<close>, is not empty and does not start with \<^verbatim>\<open>#\<close>.
\<close>

theorem analyze_patterns_cap:
  assumes "fst (generate_completion self (patterns_prompt events_summary)
                  (PyStr patterns_system_prompt) w) = Inr (PyStr response)"
  shows "\<exists>insights. fst (analyze_patterns self events_summary w) = Inr insights
           \<and> length insights \<le> 10
           \<and> (\<forall>i \<in> set insights.
                 i \<noteq> [] \<and> \<not> startswith i [35]
                 \<and> (\<exists>line \<in> set (split response 10). i = strip line))"
proof -
  obtain r w1 where gc: "generate_completion self (patterns_prompt events_summary)
      (PyStr patterns_system_prompt) w = (r, w1)"
    by (cases "generate_completion self (patterns_prompt events_summary)
      (PyStr patterns_system_prompt) w")
  with assms have r: "r = Inr (PyStr response)" by simp
  have res: "fst (analyze_patterns self events_summary w) = Inr (take 10 (insights_of response))"
    by (simp add: analyze_patterns_def gc r)
  have "\<forall>i \<in> set (take 10 (insights_of response)).
      i \<noteq> [] \<and> \<not> startswith i [35] \<and> (\<exists>line \<in> set (split response 10). i = strip line)"
    using insights_of_props by (blast dest: in_set_takeD)
  with res show ?thesis by simp
qed

text \<open>
  With a response of fifteen candidate lines (after a heading and an empty line, which
  are filtered out) the first ten are returned.
\<close>

theorem analyze_patterns_cap_witness:
  "fst (generate_completion example_client (patterns_prompt (py ''events''))
          (PyStr patterns_system_prompt) (replying (PyStr fifteen_lines))) = Inr (PyStr fifteen_lines)
   \<and> length (insights_of fifteen_lines) = 15
   \<and> fst (analyze_patterns example_client (py ''events'') (replying (PyStr fifteen_lines))) =
       Inr [py ''i1'', py ''i2'', py ''i3'', py ''i4'', py ''i5'',
            py ''i6'', py ''i7'', py ''i8'', py ''i9'', py ''i10'']
   \<and> (\<exists>insights.
         fst (analyze_patterns example_client (py ''events'') (replying (PyStr fifteen_lines))) =
           Inr insights \<and> length insights \<le> 10)"
proof -
  have h: "fst (generate_completion example_client (patterns_prompt (py ''events''))
          (PyStr patterns_system_prompt) (replying (PyStr fifteen_lines))) = Inr (PyStr fifteen_lines)"
    by (rule completion_replying)
  have n: "length (insights_of fifteen_lines) = 15"
    by (simp add: insights_of_def fifteen_lines_def strip_def lstrip_def rstrip_def
        isspace_def startswith_def)
  have v: "fst (analyze_patterns example_client (py ''events'') (replying (PyStr fifteen_lines))) =
       Inr [py ''i1'', py ''i2'', py ''i3'', py ''i4'', py ''i5'',
            py ''i6'', py ''i7'', py ''i8'', py ''i9'', py ''i10'']"
    by (simp add: analyze_patterns_def generate_completion_def post_def replying_def
        answering_def get_def insights_of_def fifteen_lines_def strip_def lstrip_def rstrip_def
        isspace_def startswith_def)
  from analyze_patterns_cap [OF h] h n v show ?thesis by blast
qed

subsection \<open>C6: failures inside one iteration\<close>

text \<open>
  C6.  A failure is an instance of \<^verbatim>\<open>Exception\<close>.  In an iteration in which whatever is
  raised while the event is processed, while the insights are generated or in between
  is a failure, \<^verbatim>\<open>run_processing_cycle\<close> returns and the failure is in the log at level
  \<^verbatim>\<open>ERROR\<close>.  When every iteration is such, \<^verbatim>\<open>run\<close> is still in its loop after all of
  them, having slept after each, if the check of the environment at startup passes, and
  leaves with \<^verbatim>\<open>sys.exit(1)\<close> if it fails.
\<close>

theorem failures_are_contained:
  "(failures_only env \<longrightarrow>
      fst (run_processing_cycle env s) = Inr ()
      \<and> (\<forall>e. sensor_fault env = Some e \<longrightarrow>
            (ERROR, Error_processing_sensor_data e) \<in> set (logged (snd (run_processing_cycle env s))))
      \<and> (\<forall>e. cycle_fault env = Some e \<longrightarrow>
            (ERROR, Error_in_processing_cycle e) \<in> set (logged (snd (run_processing_cycle env s))))
      \<and> (\<forall>e. cycle_fault env = None \<and> insight_fault env = Some e \<longrightarrow>
            (ERROR, Error_generating_insights e) \<in> set (logged (snd (run_processing_cycle env s)))))
   \<and> (list_all failures_only envs \<longrightarrow>
      fst (run envs s) = (if fst (check_environment s) then Running else Raised (SystemExit 1))
      \<and> (fst (check_environment s) \<longrightarrow>
            waits (snd (run envs s)) = waits s @ replicate (length envs) 60))"
  using cycle_contained [where env = env and s = s] run_contained [where envs = envs and s = s]
  by blast

text \<open>
  Two iterations, in the first of which the graph update and the call of the model
  fail: both failures are logged and the loop goes on; with no variable of the
  environment set, \<^verbatim>\<open>run\<close> exits at startup.
\<close>

theorem failures_are_contained_witness:
  "failures_only failing_cycle
   \<and> fst (run_processing_cycle failing_cycle configured) = Inr ()
   \<and> (ERROR, Error_processing_sensor_data (OtherException ''graph store down''))
        \<in> set (logged (snd (run_processing_cycle failing_cycle configured)))
   \<and> (ERROR, Error_generating_insights TimeoutError)
        \<in> set (logged (snd (run_processing_cycle failing_cycle configured)))
   \<and> list_all failures_only [failing_cycle, quiet]
   \<and> fst (check_environment configured)
   \<and> fst (run [failing_cycle, quiet] configured) = Running
   \<and> waits (snd (run [failing_cycle, quiet] configured)) = [60, 60]
   \<and> list_all failures_only [failing_cycle]
   \<and> fst (run [failing_cycle] (configured\<lparr>environ := (\<lambda>var. None)\<rparr>)) = Raised (SystemExit 1)"
proof -
  have f: "failures_only failing_cycle" "list_all failures_only [failing_cycle, quiet]"
    "list_all failures_only [failing_cycle]"
    by (simp_all add: failures_only_def failing_cycle_def quiet_def)
  have c: "fst (check_environment configured)"
    "\<not> fst (check_environment (configured\<lparr>environ := (\<lambda>var. None)\<rparr>))"
    by (simp_all add: check_environment_def required_vars_def configured_def)
  have s: "sensor_fault failing_cycle = Some (OtherException ''graph store down'')"
    "cycle_fault failing_cycle = None \<and> insight_fault failing_cycle = Some TimeoutError"
    "waits configured = []"
    by (simp_all add: failing_cycle_def quiet_def configured_def)
  from failures_are_contained [where env = failing_cycle and s = configured
        and envs = "[failing_cycle, quiet]"]
    failures_are_contained [where env = failing_cycle
        and s = "configured\<lparr>environ := (\<lambda>var. None)\<rparr>" and envs = "[failing_cycle]"]
    f c s
  show ?thesis by simp
qed

subsection \<open>C8: two spellings of one name\<close>

text \<open>
  C8.  The names \<^verbatim>\<open>Living Room Sensor\<close> and \<^verbatim>\<open>living room sensor \<close> (with a space at
  its end) have the same canonical key; against any nodes, and whatever the similarity
  test, they resolve to the same node, and resolving the second after the first gives
  the node the first was given and changes no node.
\<close>

theorem same_name_same_node:
  "canonical_key (py ''Living Room Sensor'') = canonical_key (py ''living room sensor '')
   \<and> resolve similar nodes \<lparr>raw_name = py ''living room sensor '', raw_type = t\<rparr> =
       resolve similar nodes \<lparr>raw_name = py ''Living Room Sensor'', raw_type = t\<rparr>
   \<and> resolve similar
         (snd (resolve similar nodes \<lparr>raw_name = py ''Living Room Sensor'', raw_type = t\<rparr>))
         \<lparr>raw_name = py ''living room sensor '', raw_type = t\<rparr> =
       resolve similar nodes \<lparr>raw_name = py ''Living Room Sensor'', raw_type = t\<rparr>"
proof -
  have k: "canonical_key (py ''living room sensor '') = canonical_key (py ''Living Room Sensor'')"
    by (simp only: canonical_key_Living_Room_Sensor canonical_key_living_room_sensor)
  let ?e1 = "\<lparr>raw_name = py ''Living Room Sensor'', raw_type = t\<rparr>"
  let ?e2 = "\<lparr>raw_name = py ''living room sensor '', raw_type = t\<rparr>"
  have k': "canonical_key (raw_name ?e2) = canonical_key (raw_name ?e1)"
    unfolding raw_entity.select_convs by (rule k)
  have t: "raw_type ?e2 = raw_type ?e1" by simp
  from resolve_same_key [OF k' t, of similar nodes] resolve_again [OF k' t, of similar nodes] k
  show ?thesis by (simp only: simp_thms)
qed

subsection \<open>C9: the decoded value is returned as it is\<close>

text \<open>
  C9.  When the model's output is a text whose content, after the fences are stripped,
  \<^verbatim>\<open>json.loads\<close> decodes to \<open>v\<close>, \<^verbatim>\<open>extract_entities_and_relationships\<close> returns
  \<open>v\<close>, whatever its shape.
\<close>

theorem decoded_value_returned_as_is:
  assumes "fst (generate_completion self (extraction_prompt event_text)
                  (PyStr extraction_system_prompt) w) = Inr (PyStr raw)"
    and "json_loads (interp w) (strip_fences raw) = Inr v"
  shows "fst (extract_entities_and_relationships self event_text w) = Inr v"
  using extract_of_text [OF assms(1)] assms(2) by simp

text \<open>The model answers with a number, and with an array.\<close>

theorem decoded_value_returned_as_is_witness:
  "fst (generate_completion example_client (extraction_prompt (py ''light on''))
          (PyStr extraction_system_prompt) (replying (PyStr (py ''42'')))) = Inr (PyStr (py ''42''))
   \<and> json_loads cpython (strip_fences (py ''42'')) = Inr (PyInt 42)
   \<and> fst (extract_entities_and_relationships example_client (py ''light on'')
          (replying (PyStr (py ''42'')))) = Inr (PyInt 42)
   \<and> fst (generate_completion example_client (extraction_prompt (py ''light on''))
          (PyStr extraction_system_prompt) (replying (PyStr (py ''[1, 2]'')))) =
       Inr (PyStr (py ''[1, 2]''))
   \<and> json_loads cpython (strip_fences (py ''[1, 2]'')) = Inr (PyList [PyInt 1, PyInt 2])
   \<and> fst (extract_entities_and_relationships example_client (py ''light on'')
          (replying (PyStr (py ''[1, 2]'')))) = Inr (PyList [PyInt 1, PyInt 2])"
proof -
  have a1: "fst (generate_completion example_client (extraction_prompt (py ''light on''))
          (PyStr extraction_system_prompt) (replying (PyStr (py ''42'')))) = Inr (PyStr (py ''42''))"
    by (rule completion_replying)
  have a2: "json_loads (interp (replying (PyStr (py ''42'')))) (strip_fences (py ''42''))
      = Inr (PyInt 42)"
    by (simp add: eval_json)
  have b1: "fst (generate_completion example_client (extraction_prompt (py ''light on''))
          (PyStr extraction_system_prompt) (replying (PyStr (py ''[1, 2]'')))) =
       Inr (PyStr (py ''[1, 2]''))"
    by (rule completion_replying)
  have b2: "json_loads (interp (replying (PyStr (py ''[1, 2]'')))) (strip_fences (py ''[1, 2]''))
      = Inr (PyList [PyInt 1, PyInt 2])"
    by (simp add: eval_json)
  from decoded_value_returned_as_is [OF a1 a2] decoded_value_returned_as_is [OF b1 b2]
    a1 a2 b1 b2
  show ?thesis by simp
qed

subsection \<open>C10: what the client returns when the request fails\<close>

text \<open>
  C10, as the code has it.  \<^verbatim>\<open>generate_completion\<close> returns the empty string, and
  \<^verbatim>\<open>generate_embeddings\<close> the empty list, when the request raises an instance of
  \<^verbatim>\<open>Exception\<close>, when the status is not 200, when reading the body of a response with
  status 200 raises an instance of \<^verbatim>\<open>Exception\<close>, and when the body is an object
  without the key \<^verbatim>\<open>response\<close> (\<^verbatim>\<open>embedding\<close>).  What leaves either of them is never an
  instance of \<^verbatim>\<open>Exception\<close>.
\<close>

theorem client_contains_every_Exception:
  fixes self :: OllamaClient and w :: world and prompt content :: str and system_prompt :: pyobj
  defines "reply \<equiv> backend w (length (posts w))"
    and "completion \<equiv> fst (generate_completion self prompt system_prompt w)"
    and "embeddings \<equiv> fst (generate_embeddings self content w)"
  shows
    "(reply = PostRaises e \<and> is_Exception e \<longrightarrow>
        completion = Inr (PyStr []) \<and> embeddings = Inr (PyList []))
   \<and> (reply = Response status json \<and> status \<noteq> 200 \<longrightarrow>
        completion = Inr (PyStr []) \<and> embeddings = Inr (PyList []))
   \<and> (reply = Response 200 (Inl e) \<and> is_Exception e \<longrightarrow>
        completion = Inr (PyStr []) \<and> embeddings = Inr (PyList []))
   \<and> (reply = Response 200 (Inr (PyDict d)) \<and> map_of d (py ''response'') = None \<longrightarrow>
        completion = Inr (PyStr []))
   \<and> (reply = Response 200 (Inr (PyDict d)) \<and> map_of d (py ''embedding'') = None \<longrightarrow>
        embeddings = Inr (PyList []))
   \<and> (\<forall>x. completion = Inl x \<longrightarrow> \<not> is_Exception x)
   \<and> (\<forall>x. embeddings = Inl x \<longrightarrow> \<not> is_Exception x)"
  unfolding reply_def completion_def embeddings_def generate_completion_fst generate_embeddings_fst
  by (auto simp: get_def split: http_reply.splits sum.splits pyobj.splits option.splits if_splits)

text \<open>
  A timeout, the status 503, a body that is not JSON, and a JSON object that holds an
  error message only.
\<close>

theorem client_contains_every_Exception_witness:
  "fst (generate_completion example_client (py ''hello'') PyNone (answering (PostRaises TimeoutError)))
     = Inr (PyStr [])
   \<and> fst (generate_embeddings example_client (py ''hello'') (answering (PostRaises TimeoutError)))
     = Inr (PyList [])
   \<and> fst (generate_completion example_client (py ''hello'') PyNone
         (answering (Response 503 (Inr PyNone)))) = Inr (PyStr [])
   \<and> fst (generate_embeddings example_client (py ''hello'')
         (answering (Response 503 (Inr PyNone)))) = Inr (PyList [])
   \<and> fst (generate_completion example_client (py ''hello'') PyNone
         (answering (Response 200 (Inl (ClientError ''ContentTypeError''))))) = Inr (PyStr [])
   \<and> fst (generate_completion example_client (py ''hello'') PyNone
         (answering (Response 200 (Inr (PyDict [(py ''error'', PyStr (py ''no model''))])))))
     = Inr (PyStr [])
   \<and> fst (generate_embeddings example_client (py ''hello'')
         (answering (Response 200 (Inr (PyDict [(py ''error'', PyStr (py ''no model''))])))))
     = Inr (PyList [])"
proof -
  note t = client_contains_every_Exception [where self = example_client
      and prompt = "py ''hello''" and system_prompt = PyNone and content = "py ''hello''"]
  note a = backend_answering
  have m: "map_of [(py ''error'', PyStr (py ''no model''))] (py ''response'') = None"
    "map_of [(py ''error'', PyStr (py ''no model''))] (py ''embedding'') = None"
    by simp_all
  from t [where w = "answering (PostRaises TimeoutError)" and e = TimeoutError, THEN conjunct1]
    t [where w = "answering (Response 503 (Inr PyNone))" and status = 503 and json = "Inr PyNone",
       THEN conjunct2, THEN conjunct1]
    t [where w = "answering (Response 200 (Inl (ClientError ''ContentTypeError'')))"
         and e = "ClientError ''ContentTypeError''", THEN conjunct2, THEN conjunct2, THEN conjunct1]
    t [where w = "answering (Response 200 (Inr (PyDict [(py ''error'', PyStr (py ''no model''))])))"
         and d = "[(py ''error'', PyStr (py ''no model''))]",
         THEN conjunct2, THEN conjunct2, THEN conjunct2]
    a m
  show ?thesis by simp
qed

text \<open>
  C10 as stated fails: when the task is cancelled while the request is awaited,
  \<^verbatim>\<open>asyncio.CancelledError\<close> is raised there; it is an exception that
  \<^verbatim>\<open>except Exception\<close> does not catch, and it reaches the caller of either operation.
\<close>

theorem CancelledError_reaches_the_caller:
  "fst (generate_completion example_client (py ''hello'') PyNone (answering (PostRaises CancelledError)))
     = Inl CancelledError
   \<and> fst (generate_embeddings example_client (py ''hello'') (answering (PostRaises CancelledError)))
     = Inl CancelledError"
  by (simp add: generate_completion_fst generate_embeddings_fst answering_def)

end
